theory Spec2Isabelle
  imports Main "HOL-Library.List_Lexorder" "HOL-Library.Multiset"
begin

section \<open>Python values\<close>

text \<open>
  A Python \<open>str\<close> is a sequence of Unicode code points; \<open>len\<close>, slicing and
  comparison all count code points.  A string is therefore a list of natural numbers,
  and \<open>u\<close> turns an ASCII literal of the source into that representation.  Bytes
  are natural numbers below 256.
\<close>

type_synonym ustr = "nat list"
type_synonym bytes = "nat list"

definition u :: "string \<Rightarrow> ustr" where
  "u s = map of_char s"

text \<open>
  A JSON-like value as \<open>json.loads\<close> builds it: \<open>None\<close>, \<open>bool\<close>, \<open>int\<close>,
  \<open>str\<close>, \<open>list\<close> and \<open>dict\<close>.  A \<open>dict\<close> keeps its insertion order, so it is
  an association list; \<open>json.loads\<close> never yields one with a repeated key.
  Python's \<open>float\<close> is left out of the model.
\<close>

datatype json =
    JNull
  | JBool bool
  | JInt int
  | JStr ustr
  | JList "json list"
  | JDict "(ustr \<times> json) list"

text \<open>
  The exceptions the modelled code can raise.  \<open>ValueError\<close> stands for a
  \<open>ValueError\<close> that is not a \<open>JSONDecodeError\<close>.
\<close>

datatype py_error =
    TypeError
  | AttributeError
  | UnicodeEncodeError
  | SliceOfDict
  | ValueError
  | RecursionError

text \<open>
  The three ways a call of \<open>json.loads\<close> ends: with a value; with
  \<open>JSONDecodeError\<close>, the exception the proxy catches; or with another exception,
  which the decoder raises on some texts as well (\<open>ValueError\<close> on a run of more
  digits than \<open>int\<close> converts, \<open>RecursionError\<close> on brackets nested deeper than
  the interpreter allows).
\<close>

datatype loads_result =
    Parsed json
  | JSONDecodeError
  | Raised py_error

text \<open>
  Library functions the proxy calls and this development does not define: the SHA-256
  hex digest of \<open>hashlib\<close>, \<open>json.loads\<close>, \<open>bytes.decode('utf-8')\<close>
  (\<open>None\<close> stands for \<open>UnicodeDecodeError\<close>), \<open>str.isprintable\<close> on one
  code point, which \<open>repr\<close> consults, and the encoding of standard output:
  \<open>stdout_encodes s\<close> tells whether \<open>print(s)\<close> can write \<open>s\<close>, and
  \<open>print(s)\<close> raises \<open>UnicodeEncodeError\<close> when it cannot.  Every theorem below
  holds for all of them.
\<close>

record pylib =
  sha256_hexdigest :: "bytes \<Rightarrow> ustr"
  json_loads :: "ustr \<Rightarrow> loads_result"
  utf8_decode :: "bytes \<Rightarrow> ustr option"
  isprintable :: "nat \<Rightarrow> bool"
  stdout_encodes :: "ustr \<Rightarrow> bool"

text \<open>The proxy object: its configuration, the request counter and the cache of previews.\<close>

record ProxyServer =
  target_host :: ustr
  target_scheme :: ustr
  show_headers :: bool
  show_event_logging :: bool
  show_tools :: bool
  cache_json :: bool
  request_count :: nat
  json_cache :: "ustr \<rightharpoonup> ustr"

fun is_composite :: "json \<Rightarrow> bool" where
  "is_composite (JList _) = True"
| "is_composite (JDict _) = True"
| "is_composite _ = False"

section \<open>Library functions of Python\<close>

subsection \<open>Text helpers\<close>

text \<open>\<open>sep.join(parts)\<close>.\<close>

fun join :: "ustr \<Rightarrow> ustr list \<Rightarrow> ustr" where
  "join sep [] = []"
| "join sep [x] = x"
| "join sep (x # y # ys) = x @ sep @ join sep (y # ys)"

text \<open>\<open>str(n)\<close> for a natural number and for an \<open>int\<close>: decimal digits.\<close>

fun str_of_nat :: "nat \<Rightarrow> ustr" where
  "str_of_nat n = (if n < 10 then [48 + n] else str_of_nat (n div 10) @ [48 + n mod 10])"

declare str_of_nat.simps [simp del]

definition str_of_int :: "int \<Rightarrow> ustr" where
  "str_of_int i = (if i < 0 then 45 # str_of_nat (nat (- i)) else str_of_nat (nat i))"

text \<open>One lower-case hexadecimal digit, and \<open>'{0:04x}'.format(n)\<close> for \<open>n < 0x10000\<close>.\<close>

definition hexdigit :: "nat \<Rightarrow> nat" where
  "hexdigit d = (if d < 10 then 48 + d else 87 + d)"

definition hex2 :: "nat \<Rightarrow> ustr" where
  "hex2 n = [hexdigit (n div 16 mod 16), hexdigit (n mod 16)]"

definition hex4 :: "nat \<Rightarrow> ustr" where
  "hex4 n = hex2 (n div 256) @ hex2 (n mod 256)"

definition hex8 :: "nat \<Rightarrow> ustr" where
  "hex8 n = hex4 (n div 65536) @ hex4 (n mod 65536)"

text \<open>\<open>s.startswith(p)\<close> and \<open>s.split(c)\<close> for a separator of one code point.\<close>

definition startswith :: "ustr \<Rightarrow> ustr \<Rightarrow> bool" where
  "startswith p s = (take (length p) s = p)"

fun split_at :: "nat \<Rightarrow> ustr \<Rightarrow> ustr list" where
  "split_at c [] = [[]]"
| "split_at c (x # xs) =
     (if x = c then [] # split_at c xs
      else (case split_at c xs of [] \<Rightarrow> [[x]] | l # ls \<Rightarrow> (x # l) # ls))"

text \<open>\<open>str.isspace\<close> on one code point, and \<open>s.strip()\<close>.\<close>

definition isspace :: "nat \<Rightarrow> bool" where
  "isspace c =
     ((9 \<le> c \<and> c \<le> 13) \<or> (28 \<le> c \<and> c \<le> 32) \<or> c = 133 \<or> c = 160 \<or> c = 5760
      \<or> (8192 \<le> c \<and> c \<le> 8202) \<or> c = 8232 \<or> c = 8233 \<or> c = 8239 \<or> c = 8287
      \<or> c = 12288)"

definition strip :: "ustr \<Rightarrow> ustr" where
  "strip s = rev (dropWhile isspace (rev (dropWhile isspace s)))"

subsection \<open>\<open>json.dumps\<close>\<close>

text \<open>
  \<open>py_encode_basestring_ascii\<close> without the surrounding quotes: a code point outside
  \<open>' '..'~'\<close>, a double quote or a backslash is escaped; a code point from
  \<open>0x10000\<close> on becomes a surrogate pair.
\<close>

definition escape_char :: "nat \<Rightarrow> ustr" where
  "escape_char c =
     (if c = 92 then [92, 92]
      else if c = 34 then [92, 34]
      else if 32 \<le> c \<and> c \<le> 126 then [c]
      else if c = 8 then 92 # u ''b''
      else if c = 12 then 92 # u ''f''
      else if c = 10 then 92 # u ''n''
      else if c = 13 then 92 # u ''r''
      else if c = 9 then 92 # u ''t''
      else if c < 65536 then 92 # u ''u'' @ hex4 c
      else (92 # u ''u'') @ hex4 (55296 + (c - 65536) div 1024 mod 1024)
         @ (92 # u ''u'') @ hex4 (56320 + (c - 65536) mod 1024))"

definition encode_basestring_ascii :: "ustr \<Rightarrow> ustr" where
  "encode_basestring_ascii s = [34] @ concat (map escape_char s) @ [34]"

text \<open>
  \<open>json.dumps(value, sort_keys=True, ensure_ascii=True)\<close>: the items of a mapping
  are put in the order of their keys, then written with the separators \<open>', '\<close> and
  \<open>': '\<close>.
\<close>

fun dumps :: "json \<Rightarrow> ustr"
  and dumps_list :: "json list \<Rightarrow> ustr list"
  and dumps_items :: "(ustr \<times> json) list \<Rightarrow> (ustr \<times> ustr) list" where
  "dumps JNull = u ''null''"
| "dumps (JBool b) = (if b then u ''true'' else u ''false'')"
| "dumps (JInt i) = str_of_int i"
| "dumps (JStr s) = encode_basestring_ascii s"
| "dumps (JList xs) = (if xs = [] then u ''[]'' else u ''['' @ join (u '', '') (dumps_list xs) @ u '']'')"
| "dumps (JDict kvs) =
     (if kvs = [] then u ''{}''
      else u ''{''
         @ join (u '', '')
             (map (\<lambda>(k, s). encode_basestring_ascii k @ u '': '' @ s)
                (sort_key fst (dumps_items kvs)))
         @ u ''}'')"
| "dumps_list [] = []"
| "dumps_list (x # xs) = dumps x # dumps_list xs"
| "dumps_items [] = []"
| "dumps_items (kv # kvs) = (fst kv, dumps (snd kv)) # dumps_items kvs"

subsection \<open>\<open>str.encode\<close>\<close>

text \<open>
  \<open>s.encode()\<close>: UTF-8.  A surrogate code point cannot be encoded and raises
  \<open>UnicodeEncodeError\<close>.
\<close>

definition encode_char :: "nat \<Rightarrow> py_error + bytes" where
  "encode_char c =
     (if c < 128 then Inr [c]
      else if c < 2048 then Inr [192 + c div 64, 128 + c mod 64]
      else if 55296 \<le> c \<and> c \<le> 57343 then Inl UnicodeEncodeError
      else if c < 65536 then Inr [224 + c div 4096, 128 + c div 64 mod 64, 128 + c mod 64]
      else Inr [240 + c div 262144 mod 8, 128 + c div 4096 mod 64,
                128 + c div 64 mod 64, 128 + c mod 64])"

fun encode :: "ustr \<Rightarrow> py_error + bytes" where
  "encode [] = Inr []"
| "encode (c # cs) =
     (case encode_char c of
        Inl e \<Rightarrow> Inl e
      | Inr b \<Rightarrow> (case encode cs of Inl e \<Rightarrow> Inl e | Inr bs \<Rightarrow> Inr (b @ bs)))"

subsection \<open>\<open>str\<close> and \<open>repr\<close>\<close>

text \<open>
  \<open>repr\<close> of a \<open>str\<close>: single quotes, unless the text holds a single quote and no
  double quote; the quote and the backslash are escaped, tab, line feed and carriage
  return are written \<open>\t\<close>, \<open>\n\<close>, \<open>\r\<close>, and any other code point that is not
  printable as \<open>\xhh\<close>, \<open>\uhhhh\<close> or \<open>\Uhhhhhhhh\<close>.
\<close>

definition repr_char :: "pylib \<Rightarrow> nat \<Rightarrow> nat \<Rightarrow> ustr" where
  "repr_char L q c =
     (if c = q \<or> c = 92 then [92, c]
      else if c = 9 then 92 # u ''t''
      else if c = 10 then 92 # u ''n''
      else if c = 13 then 92 # u ''r''
      else if c < 32 \<or> c = 127 then 92 # u ''x'' @ hex2 c
      else if c < 127 then [c]
      else if isprintable L c then [c]
      else if c < 256 then 92 # u ''x'' @ hex2 c
      else if c < 65536 then 92 # u ''u'' @ hex4 c
      else 92 # u ''U'' @ hex8 c)"

definition repr_str :: "pylib \<Rightarrow> ustr \<Rightarrow> ustr" where
  "repr_str L s =
     (let q = (if 39 \<in> set s \<and> 34 \<notin> set s then 34 else 39)
      in [q] @ concat (map (repr_char L q) s) @ [q])"

fun py_repr :: "pylib \<Rightarrow> json \<Rightarrow> ustr"
  and py_repr_list :: "pylib \<Rightarrow> json list \<Rightarrow> ustr list"
  and py_repr_items :: "pylib \<Rightarrow> (ustr \<times> json) list \<Rightarrow> ustr list" where
  "py_repr L JNull = u ''None''"
| "py_repr L (JBool b) = (if b then u ''True'' else u ''False'')"
| "py_repr L (JInt i) = str_of_int i"
| "py_repr L (JStr s) = repr_str L s"
| "py_repr L (JList xs) = u ''['' @ join (u '', '') (py_repr_list L xs) @ u '']''"
| "py_repr L (JDict kvs) = u ''{'' @ join (u '', '') (py_repr_items L kvs) @ u ''}''"
| "py_repr_list L [] = []"
| "py_repr_list L (x # xs) = py_repr L x # py_repr_list L xs"
| "py_repr_items L [] = []"
| "py_repr_items L (kv # kvs) =
     (repr_str L (fst kv) @ u '': '' @ py_repr L (snd kv)) # py_repr_items L kvs"

text \<open>\<open>str(v)\<close>, which is also what an f-string writes for \<open>{v}\<close>.\<close>

fun py_str :: "pylib \<Rightarrow> json \<Rightarrow> ustr" where
  "py_str L (JStr s) = s"
| "py_str L v = py_repr L v"

subsection \<open>Operations on values\<close>

text \<open>
  \<open>len(v)\<close> and \<open>v[:n]\<close>.  \<open>len\<close> of \<open>None\<close>, a \<open>bool\<close> or an \<open>int\<close> raises
  \<open>TypeError\<close>; a \<open>dict\<close> cannot be sliced (\<open>TypeError\<close> before Python 3.12,
  \<open>KeyError\<close> from 3.12 on: the model writes \<open>SliceOfDict\<close>).
\<close>

fun py_len :: "json \<Rightarrow> py_error + nat" where
  "py_len (JStr s) = Inr (length s)"
| "py_len (JList xs) = Inr (length xs)"
| "py_len (JDict kvs) = Inr (length kvs)"
| "py_len _ = Inl TypeError"

fun py_slice :: "nat \<Rightarrow> json \<Rightarrow> py_error + json" where
  "py_slice n (JStr s) = Inr (JStr (take n s))"
| "py_slice n (JList xs) = Inr (JList (take n xs))"
| "py_slice n (JDict kvs) = Inl SliceOfDict"
| "py_slice n _ = Inl TypeError"

text \<open>
  \<open>v.get(key, default)\<close>: only a \<open>dict\<close> has the method, anything else raises
  \<open>AttributeError\<close>.  \<open>v.get(key)\<close> is \<open>py_get v key JNull\<close>.
\<close>

fun py_get :: "json \<Rightarrow> ustr \<Rightarrow> json \<Rightarrow> py_error + json" where
  "py_get (JDict kvs) key dflt = Inr (case map_of kvs key of None \<Rightarrow> dflt | Some v \<Rightarrow> v)"
| "py_get _ key dflt = Inl AttributeError"

text \<open>The truth value of \<open>v\<close> in a condition.\<close>

fun truthy :: "json \<Rightarrow> bool" where
  "truthy JNull = False"
| "truthy (JBool b) = b"
| "truthy (JInt i) = (i \<noteq> 0)"
| "truthy (JStr s) = (s \<noteq> [])"
| "truthy (JList xs) = (xs \<noteq> [])"
| "truthy (JDict kvs) = (kvs \<noteq> [])"

text \<open>\<open>d[key] = v\<close> on a copy of \<open>d\<close>: a key the mapping has keeps its place.\<close>

fun dict_set :: "ustr \<Rightarrow> json \<Rightarrow> (ustr \<times> json) list \<Rightarrow> (ustr \<times> json) list" where
  "dict_set key v [] = [(key, v)]"
| "dict_set key v (kv # kvs) =
     (if fst kv = key then (key, v) # kvs else kv # dict_set key v kvs)"

section \<open>The fingerprint\<close>

text \<open>\<open>compute_hash\<close> of the source.\<close>

definition compute_hash :: "pylib \<Rightarrow> json \<Rightarrow> py_error + ustr" where
  "compute_hash L v =
     (case encode (dumps v) of
        Inl e \<Rightarrow> Inl e
      | Inr serialized \<Rightarrow> Inr (sha256_hexdigest L serialized))"

section \<open>The preview\<close>

text \<open>\<open>create_preview\<close> of the source; \<open>max_length\<close> is 60 at its only call.\<close>

fun create_preview :: "pylib \<Rightarrow> json \<Rightarrow> nat \<Rightarrow> py_error + ustr" where
  "create_preview L (JDict kvs) max_length =
     (case (map_of kvs (u ''type''), map_of kvs (u ''text'')) of
        (Some _, Some text) \<Rightarrow>
          (case py_len text of
             Inl e \<Rightarrow> Inl e
           | Inr n \<Rightarrow>
              if n > 40 then
                (case py_slice 40 text of
                   Inl e \<Rightarrow> Inl e
                 | Inr t \<Rightarrow> Inr (u ''dict with text: '' @ [39] @ py_str L t @ u ''...'' @ [39]))
              else Inr (u ''dict with text: '' @ [39] @ py_str L text @ [39]))
      | _ \<Rightarrow>
     (case (map_of kvs (u ''role''), map_of kvs (u ''content'')) of
        (Some role, Some c) \<Rightarrow>
          (let content = py_str L c in
           if length content > 40 then
             Inr (u ''message '' @ py_str L role @ u '': '' @ [39] @ take 40 content @ u ''...'' @ [39])
           else
             Inr (u ''message '' @ py_str L role @ u '': '' @ [39] @ content @ [39]))
      | _ \<Rightarrow>
     (case (map_of kvs (u ''name''), map_of kvs (u ''description'')) of
        (Some name, Some _) \<Rightarrow> Inr (u ''tool: '' @ py_str L name)
      | _ \<Rightarrow>
          (let keys = take 3 (map fst kvs)
           in Inr (u ''dict with keys: '' @ join (u '', '') keys
                   @ (if length kvs > 3 then u ''...'' else []))))))"
| "create_preview L (JList xs) max_length =
     Inr (u ''array with '' @ str_of_nat (length xs) @ u '' items'')"
| "create_preview L (JStr s) max_length =
     (if length s > max_length then Inr ([39] @ take max_length s @ u ''...'' @ [39])
      else Inr ([39] @ s @ [39]))"
| "create_preview L v max_length = Inr (py_str L v)"

section \<open>The collapser\<close>

text \<open>
  \<open>cache_and_replace\<close> of the source.  The cache is a field of the proxy, so the
  proxy is passed in and handed back; an exception leaves the entries written before
  it in place.  \<open>cache_items\<close> is the loop over \<open>value.items()\<close> and
  \<open>cache_elems\<close> the loop over \<open>enumerate(value)\<close>.
\<close>

definition cached_marker :: "ustr \<Rightarrow> json" where
  "cached_marker preview = JStr (u ''... (cached: '' @ preview @ u '')'')"

definition exempt_keys :: "ustr list" where
  "exempt_keys = [u ''model'', u ''max_tokens'', u ''stream'']"

fun cache_and_replace :: "pylib \<Rightarrow> ProxyServer \<Rightarrow> json \<Rightarrow> ustr \<Rightarrow> ProxyServer \<times> (py_error + json)"
  and cache_items :: "pylib \<Rightarrow> ProxyServer \<Rightarrow> (ustr \<times> json) list \<Rightarrow> ustr
        \<Rightarrow> ProxyServer \<times> (py_error + (ustr \<times> json) list)"
  and cache_elems :: "pylib \<Rightarrow> ProxyServer \<Rightarrow> json list \<Rightarrow> nat \<Rightarrow> ustr
        \<Rightarrow> ProxyServer \<times> (py_error + json list)" where
  "cache_and_replace L self (JDict kvs) path =
     (if \<not> cache_json self then (self, Inr (JDict kvs))
      else case compute_hash L (JDict kvs) of
        Inl e \<Rightarrow> (self, Inl e)
      | Inr value_hash \<Rightarrow>
         (case json_cache self value_hash of
            Some preview \<Rightarrow> (self, Inr (cached_marker preview))
          | None \<Rightarrow>
             (case create_preview L (JDict kvs) 60 of
                Inl e \<Rightarrow> (self, Inl e)
              | Inr preview \<Rightarrow>
                 (case cache_items L
                         (self\<lparr>json_cache := (json_cache self)(value_hash \<mapsto> preview)\<rparr>)
                         kvs path of
                    (self', Inl e) \<Rightarrow> (self', Inl e)
                  | (self', Inr result) \<Rightarrow> (self', Inr (JDict result))))))"
| "cache_and_replace L self (JList xs) path =
     (if \<not> cache_json self then (self, Inr (JList xs))
      else case compute_hash L (JList xs) of
        Inl e \<Rightarrow> (self, Inl e)
      | Inr value_hash \<Rightarrow>
         (case json_cache self value_hash of
            Some preview \<Rightarrow> (self, Inr (cached_marker preview))
          | None \<Rightarrow>
             (case create_preview L (JList xs) 60 of
                Inl e \<Rightarrow> (self, Inl e)
              | Inr preview \<Rightarrow>
                 (case cache_elems L
                         (self\<lparr>json_cache := (json_cache self)(value_hash \<mapsto> preview)\<rparr>)
                         xs 0 path of
                    (self', Inl e) \<Rightarrow> (self', Inl e)
                  | (self', Inr result) \<Rightarrow> (self', Inr (JList result))))))"
| "cache_and_replace L self JNull path = (self, Inr JNull)"
| "cache_and_replace L self (JBool b) path = (self, Inr (JBool b))"
| "cache_and_replace L self (JInt i) path = (self, Inr (JInt i))"
| "cache_and_replace L self (JStr s) path = (self, Inr (JStr s))"
| "cache_items L self [] path = (self, Inr [])"
| "cache_items L self (kv # kvs) path =
     (if path = [] \<and> fst kv \<in> set exempt_keys then
        (case cache_items L self kvs path of
           (self', Inl e) \<Rightarrow> (self', Inl e)
         | (self', Inr result) \<Rightarrow> (self', Inr ((fst kv, snd kv) # result)))
      else
        (case cache_and_replace L self (snd kv)
                (if path \<noteq> [] then path @ u ''.'' @ fst kv else fst kv) of
           (self1, Inl e) \<Rightarrow> (self1, Inl e)
         | (self1, Inr val) \<Rightarrow>
            (case cache_items L self1 kvs path of
               (self', Inl e) \<Rightarrow> (self', Inl e)
             | (self', Inr result) \<Rightarrow> (self', Inr ((fst kv, val) # result)))))"
| "cache_elems L self [] i path = (self, Inr [])"
| "cache_elems L self (item # items) i path =
     (case cache_and_replace L self item (path @ u ''['' @ str_of_nat i @ u '']'') of
        (self1, Inl e) \<Rightarrow> (self1, Inl e)
      | (self1, Inr val) \<Rightarrow>
         (case cache_elems L self1 items (Suc i) path of
            (self', Inl e) \<Rightarrow> (self', Inl e)
          | (self', Inr result) \<Rightarrow> (self', Inr (val # result))))"

section \<open>Hiding the tools\<close>

text \<open>\<open>filter_tools\<close> of the source.\<close>

definition tools_placeholder :: json where
  "tools_placeholder = JStr (u ''... (hidden, use --show-tools to display)'')"

fun filter_tools :: "ProxyServer \<Rightarrow> json \<Rightarrow> json" where
  "filter_tools self (JDict kvs) =
     (if \<not> show_tools self \<and> map_of kvs (u ''tools'') \<noteq> None
      then JDict (dict_set (u ''tools'') tools_placeholder kvs)
      else JDict kvs)"
| "filter_tools self json_obj = json_obj"

section \<open>The renderer\<close>

text \<open>
  \<open>format_json\<close> of the source.  \<open>TEXT_COLOR\<close> is the module's constant and
  \<open>RESET_ALL\<close> is \<open>colorama.Style.RESET_ALL\<close>; 27 is the escape character and 10
  the line feed.  \<open>format_elems\<close> and \<open>format_items\<close> build the list \<open>items\<close> of
  the two loops.
\<close>

definition TEXT_COLOR :: ustr where
  "TEXT_COLOR = 27 # u ''[96m''"

definition RESET_ALL :: ustr where
  "RESET_ALL = 27 # u ''[0m''"

definition indent_str :: "nat \<Rightarrow> ustr" where
  "indent_str indent = concat (replicate indent (u ''  ''))"

definition text_keys :: "ustr list" where
  "text_keys = [u ''text'', u ''content'']"

fun format_json :: "json \<Rightarrow> nat \<Rightarrow> bool \<Rightarrow> ustr"
  and format_elems :: "json list \<Rightarrow> nat \<Rightarrow> bool \<Rightarrow> ustr list"
  and format_items :: "(ustr \<times> json) list \<Rightarrow> nat \<Rightarrow> ustr list" where
  "format_json JNull indent in_text_field = u ''null''"
| "format_json (JBool b) indent in_text_field = (if b then u ''true'' else u ''false'')"
| "format_json (JInt i) indent in_text_field = str_of_int i"
| "format_json (JStr s) indent in_text_field =
     (if in_text_field \<and> 10 \<in> set s then
        [10] @ TEXT_COLOR
        @ join [10] (map (\<lambda>line. indent_str indent @ u ''  '' @ line) (split_at 10 s))
        @ [10] @ indent_str indent @ RESET_ALL
      else
        (let escaped = encode_basestring_ascii s
         in if in_text_field \<and> length s > 20 then TEXT_COLOR @ escaped @ RESET_ALL
            else escaped))"
| "format_json (JList xs) indent in_text_field =
     (if xs = [] then u ''[]''
      else u ''['' @ [10] @ join (u '','' @ [10]) (format_elems xs indent in_text_field)
           @ [10] @ indent_str indent @ u '']'')"
| "format_json (JDict kvs) indent in_text_field =
     (if kvs = [] then u ''{}''
      else u ''{'' @ [10] @ join (u '','' @ [10]) (format_items kvs indent)
           @ [10] @ indent_str indent @ u ''}'')"
| "format_elems [] indent in_text_field = []"
| "format_elems (item # xs) indent in_text_field =
     (indent_str indent @ u ''  '' @ format_json item (indent + 1) in_text_field)
     # format_elems xs indent in_text_field"
| "format_items [] indent = []"
| "format_items (kv # kvs) indent =
     (let is_text_field = (fst kv \<in> set text_keys)
      in (indent_str indent @ u ''  '' @ [34] @ fst kv @ [34] @ u '': ''
          @ format_json (snd kv) (indent + 1) is_text_field)
         # format_items kvs indent)"

section \<open>The stream condenser\<close>

text \<open>
  An event record of \<open>parse_streaming_response\<close>: the dictionary with the keys
  \<open>'event'\<close> and \<open>'data'\<close>.  The data is \<open>None\<close> (\<open>JNull\<close>) until a data line
  sets it to the decoded payload, or to the raw text (a \<open>JStr\<close>) when
  \<open>json.loads\<close> raises \<open>JSONDecodeError\<close>.
\<close>

record event =
  event_name :: ustr
  event_data :: json

text \<open>
  The first loop: over the lines, with \<open>events\<close> and \<open>current_event\<close>.  Of the
  exceptions of \<open>json.loads\<close> the loop catches \<open>JSONDecodeError\<close> only; any
  other ends the call.
\<close>

fun parse_lines :: "pylib \<Rightarrow> ustr list \<Rightarrow> event list \<Rightarrow> event option
      \<Rightarrow> py_error + event list \<times> event option" where
  "parse_lines L [] events current_event = Inr (events, current_event)"
| "parse_lines L (line # lines) events current_event =
     (if startswith (u ''event: '') line then
        parse_lines L lines
          (case current_event of None \<Rightarrow> events | Some e \<Rightarrow> events @ [e])
          (Some \<lparr>event_name = strip (drop 7 line), event_data = JNull\<rparr>)
      else if startswith (u ''data: '') line then
        (case current_event of
           None \<Rightarrow> parse_lines L lines events current_event
         | Some e \<Rightarrow>
            (case json_loads L (strip (drop 6 line)) of
               Parsed v \<Rightarrow> parse_lines L lines events (Some (e\<lparr>event_data := v\<rparr>))
             | JSONDecodeError \<Rightarrow>
                parse_lines L lines events
                  (Some (e\<lparr>event_data := JStr (strip (drop 6 line))\<rparr>))
             | Raised err \<Rightarrow> Inl err))
      else parse_lines L lines events current_event)"

text \<open>The second loop: the text deltas, in the order of the events.\<close>

fun is_dict :: "json \<Rightarrow> bool" where
  "is_dict (JDict _) = True"
| "is_dict _ = False"

fun extract_text_deltas :: "event list \<Rightarrow> py_error + json list" where
  "extract_text_deltas [] = Inr []"
| "extract_text_deltas (e # events) =
     (if event_name e = u ''content_block_delta'' \<and> truthy (event_data e)
         \<and> is_dict (event_data e)
         \<and> py_get (event_data e) (u ''type'') JNull = Inr (JStr (u ''content_block_delta''))
      then
        (case py_get (event_data e) (u ''delta'') (JDict []) of
           Inl err \<Rightarrow> Inl err
         | Inr delta \<Rightarrow>
            (case py_get delta (u ''type'') JNull of
               Inl err \<Rightarrow> Inl err
             | Inr ty \<Rightarrow>
                if ty = JStr (u ''text_delta'') then
                  (case py_get delta (u ''text'') (JStr []) of
                     Inl err \<Rightarrow> Inl err
                   | Inr t \<Rightarrow>
                      (case extract_text_deltas events of
                         Inl err \<Rightarrow> Inl err
                       | Inr ts \<Rightarrow> Inr (t # ts)))
                else extract_text_deltas events))
      else extract_text_deltas events)"

text \<open>\<open>''.join(text_deltas)\<close>: every item has to be a \<open>str\<close>.\<close>

fun join_deltas :: "json list \<Rightarrow> py_error + ustr" where
  "join_deltas [] = Inr []"
| "join_deltas (JStr s # ts) =
     (case join_deltas ts of Inl err \<Rightarrow> Inl err | Inr r \<Rightarrow> Inr (s @ r))"
| "join_deltas (_ # ts) = Inl TypeError"

text \<open>The lines each of the six later parts appends to \<open>output\<close>.\<close>

definition show_message_start :: "pylib \<Rightarrow> event list \<Rightarrow> py_error + ustr list" where
  "show_message_start L events =
     (case find (\<lambda>e. event_name e = u ''message_start'' \<and> truthy (event_data e)) events of
        None \<Rightarrow> Inr []
      | Some e \<Rightarrow>
         (case py_get (event_data e) (u ''message'') (JDict []) of
            Inl err \<Rightarrow> Inl err
          | Inr message_data \<Rightarrow>
         (case py_get message_data (u ''model'') JNull of
            Inl err \<Rightarrow> Inl err
          | Inr model \<Rightarrow>
         (case py_get message_data (u ''id'') JNull of
            Inl err \<Rightarrow> Inl err
          | Inr ident \<Rightarrow>
         (case py_get message_data (u ''usage'') (JDict []) of
            Inl err \<Rightarrow> Inl err
          | Inr usage \<Rightarrow>
             (let line = u ''  - message_start: model='' @ py_str L model
                         @ u '', id='' @ py_str L ident
              in if truthy usage then
                   (case py_get usage (u ''input_tokens'') JNull of
                      Inl err \<Rightarrow> Inl err
                    | Inr input_tokens \<Rightarrow>
                   (case py_get usage (u ''output_tokens'') JNull of
                      Inl err \<Rightarrow> Inl err
                    | Inr output_tokens \<Rightarrow>
                       Inr [line,
                            u ''    usage: input_tokens='' @ py_str L input_tokens
                            @ u '', output_tokens='' @ py_str L output_tokens]))
                 else Inr [line]))))))"

definition show_content_block_start :: "pylib \<Rightarrow> event list \<Rightarrow> py_error + ustr list" where
  "show_content_block_start L events =
     (case find (\<lambda>e. event_name e = u ''content_block_start'') events of
        None \<Rightarrow> Inr []
      | Some e \<Rightarrow>
         (case py_get (event_data e) (u ''index'') (JInt 0) of
            Inl err \<Rightarrow> Inl err
          | Inr index \<Rightarrow> Inr [u ''  - content_block_start: index='' @ py_str L index]))"

definition show_text_deltas :: "json list \<Rightarrow> py_error + ustr list" where
  "show_text_deltas text_deltas =
     (if text_deltas \<noteq> [] then
        (case join_deltas text_deltas of
           Inl err \<Rightarrow> Inl err
         | Inr merged_text \<Rightarrow>
            Inr [u ''  - content_block_delta (merged): '' @ [34] @ merged_text @ [34]])
      else Inr [])"

definition show_content_block_stop :: "event list \<Rightarrow> ustr list" where
  "show_content_block_stop events =
     (case find (\<lambda>e. event_name e = u ''content_block_stop'') events of
        None \<Rightarrow> []
      | Some e \<Rightarrow> [u ''  - content_block_stop''])"

definition show_message_delta :: "pylib \<Rightarrow> event list \<Rightarrow> py_error + ustr list" where
  "show_message_delta L events =
     (case find (\<lambda>e. event_name e = u ''message_delta'' \<and> truthy (event_data e)) events of
        None \<Rightarrow> Inr []
      | Some e \<Rightarrow>
         (case py_get (event_data e) (u ''delta'') (JDict []) of
            Inl err \<Rightarrow> Inl err
          | Inr delta \<Rightarrow>
         (case py_get delta (u ''stop_reason'') JNull of
            Inl err \<Rightarrow> Inl err
          | Inr stop_reason \<Rightarrow>
         (case py_get (event_data e) (u ''usage'') (JDict []) of
            Inl err \<Rightarrow> Inl err
          | Inr usage \<Rightarrow>
             (let line = u ''  - message_delta: stop_reason='' @ py_str L stop_reason
              in if truthy usage then
                   (case py_get usage (u ''output_tokens'') JNull of
                      Inl err \<Rightarrow> Inl err
                    | Inr output_tokens \<Rightarrow>
                       Inr [line, u ''    usage: output_tokens='' @ py_str L output_tokens])
                 else Inr [line])))))"

definition show_message_stop :: "event list \<Rightarrow> ustr list" where
  "show_message_stop events =
     (case find (\<lambda>e. event_name e = u ''message_stop'') events of
        None \<Rightarrow> []
      | Some e \<Rightarrow> [u ''  - message_stop''])"

text \<open>
  \<open>parse_streaming_response\<close> of the source, in two steps: the events of the body
  text, then the summary of the events.  The parts of the summary run in the order of
  the source, and the first exception ends the call.
\<close>

definition parse_events :: "pylib \<Rightarrow> ustr \<Rightarrow> py_error + event list" where
  "parse_events L body_text =
     (case parse_lines L (split_at 10 (strip body_text)) [] None of
        Inl err \<Rightarrow> Inl err
      | Inr (events, None) \<Rightarrow> Inr events
      | Inr (events, Some current_event) \<Rightarrow> Inr (events @ [current_event]))"

definition summarize_events :: "pylib \<Rightarrow> event list \<Rightarrow> py_error + ustr" where
  "summarize_events L events =
     (case extract_text_deltas events of
        Inl err \<Rightarrow> Inl err
      | Inr text_deltas \<Rightarrow>
     (case show_message_start L events of
        Inl err \<Rightarrow> Inl err
      | Inr out_message_start \<Rightarrow>
     (case show_content_block_start L events of
        Inl err \<Rightarrow> Inl err
      | Inr out_block_start \<Rightarrow>
     (case show_text_deltas text_deltas of
        Inl err \<Rightarrow> Inl err
      | Inr out_deltas \<Rightarrow>
     (case show_message_delta L events of
        Inl err \<Rightarrow> Inl err
      | Inr out_message_delta \<Rightarrow>
         Inr (join [10]
               ([u ''Streaming response events:''] @ out_message_start @ out_block_start
                @ out_deltas @ show_content_block_stop events @ out_message_delta
                @ show_message_stop events)))))))"

definition parse_streaming_response :: "pylib \<Rightarrow> ustr \<Rightarrow> py_error + ustr" where
  "parse_streaming_response L body_text =
     (case parse_events L body_text of
        Inl err \<Rightarrow> Inl err
      | Inr events \<Rightarrow> summarize_events L events)"

section \<open>The trace writer\<close>

text \<open>
  \<open>print_request\<close> and \<open>print_response\<close> of the source.  What they write is the
  list of the arguments of their \<open>print\<close> calls, in order; the result is the proxy
  afterwards, that list, and the exception that ended the call, if one did.  The lines
  before the body are \<open>request_heading\<close> and \<open>response_heading\<close>.  The
  colours are the constants of \<open>colorama.Fore\<close>.  \<open>now\<close> is the text
  \<open>datetime.now().strftime("%Y-%m-%d %H:%M:%S.%f")\<close> of the moment of the call.

  A \<open>print\<close> call whose text standard output cannot encode raises
  \<open>UnicodeEncodeError\<close> and writes nothing.  \<open>print_lines\<close> is a run of
  \<open>print\<close> calls, one for each text of a list; \<open>prints\<close> is such a run by a
  proxy; \<open>then_do\<close> goes on with the next statements when no exception was raised
  so far.
\<close>

type_synonym trace = "ProxyServer \<times> ustr list \<times> py_error option"

fun print_lines :: "pylib \<Rightarrow> ustr list \<Rightarrow> ustr list \<times> py_error option" where
  "print_lines L [] = ([], None)"
| "print_lines L (s # rest) =
     (if stdout_encodes L s then
        (case print_lines L rest of (written, r) \<Rightarrow> (s # written, r))
      else ([], Some UnicodeEncodeError))"

definition prints :: "pylib \<Rightarrow> ProxyServer \<Rightarrow> ustr list \<Rightarrow> trace" where
  "prints L self ls = (case print_lines L ls of (written, r) \<Rightarrow> (self, written, r))"

definition then_do :: "trace \<Rightarrow> (ProxyServer \<Rightarrow> trace) \<Rightarrow> trace" where
  "then_do t f =
     (case t of
        (self, out, Some err) \<Rightarrow> (self, out, Some err)
      | (self, out, None) \<Rightarrow> (case f self of (self', out', r) \<Rightarrow> (self', out @ out', r)))"

definition Fore_CYAN :: ustr where "Fore_CYAN = 27 # u ''[36m''"
definition Fore_GREEN :: ustr where "Fore_GREEN = 27 # u ''[32m''"
definition Fore_YELLOW :: ustr where "Fore_YELLOW = 27 # u ''[33m''"
definition Fore_MAGENTA :: ustr where "Fore_MAGENTA = 27 # u ''[35m''"
definition Fore_RED :: ustr where "Fore_RED = 27 # u ''[31m''"

definition print_separator :: "ustr \<Rightarrow> nat \<Rightarrow> ustr" where
  "print_separator char len = Fore_CYAN @ concat (replicate len char)"

definition print_headers :: "ProxyServer \<Rightarrow> (ustr \<times> ustr) list \<Rightarrow> ustr list" where
  "print_headers self headers =
     (if show_headers self then
        ([10] @ Fore_MAGENTA @ u ''Headers:'')
        # map (\<lambda>(key, val). u ''  '' @ key @ u '': '' @ val) headers
      else [])"

definition binary_placeholder :: "bytes \<Rightarrow> ustr" where
  "binary_placeholder body = u ''  [Binary data: '' @ str_of_nat (length body) @ u '' bytes]''"

definition body_heading :: "bytes \<Rightarrow> ustr" where
  "body_heading body = [10] @ Fore_CYAN @ u ''Body ('' @ str_of_nat (length body) @ u '' bytes):''"

definition request_heading ::
  "ProxyServer \<Rightarrow> ustr \<Rightarrow> ustr \<Rightarrow> ustr \<Rightarrow> (ustr \<times> ustr) list \<Rightarrow> ustr list" where
  "request_heading self now method path headers =
     (let timestamp = take (length now - 3) now
      in [print_separator (u ''='') 80,
          Fore_GREEN @ u ''['' @ str_of_nat (request_count self) @ u ''] REQUEST '' @ timestamp,
          print_separator (u ''='') 80,
          Fore_YELLOW @ method @ u '' '' @ target_scheme self @ u ''://''
            @ target_host self @ path]
         @ print_headers self headers)"

definition response_heading ::
  "ProxyServer \<Rightarrow> ustr \<Rightarrow> int \<Rightarrow> (ustr \<times> ustr) list \<Rightarrow> ustr list" where
  "response_heading self now status headers =
     (let timestamp = take (length now - 3) now;
          status_color = (if status < 400 then Fore_GREEN else Fore_RED)
      in [print_separator (u ''-'') 80,
          Fore_GREEN @ u ''['' @ str_of_nat (request_count self) @ u ''] RESPONSE '' @ timestamp,
          print_separator (u ''-'') 80,
          status_color @ u ''Status: '' @ str_of_int status]
         @ print_headers self headers)"

text \<open>
  In both functions the handler of \<open>JSONDecodeError\<close> encloses the call of
  \<open>json.loads\<close>, the collapse, the hiding of the tools and the \<open>print\<close> of the
  rendering, and the handler of \<open>UnicodeDecodeError\<close> encloses all of that and the
  decoding.  Only \<open>json.loads\<close> raises the first and only the decoding raises the
  second, so every other exception leaves the function.
\<close>

definition print_request ::
  "pylib \<Rightarrow> ProxyServer \<Rightarrow> ustr \<Rightarrow> ustr \<Rightarrow> ustr \<Rightarrow> (ustr \<times> ustr) list \<Rightarrow> bytes option
     \<Rightarrow> trace" where
  "print_request L self now method path headers body =
     (let self1 = self\<lparr>request_count := request_count self + 1\<rparr>
      in then_do (prints L self1 (request_heading self1 now method path headers)) (\<lambda>self1.
         then_do
           (case body of
              None \<Rightarrow> (self1, [], None)
            | Some b \<Rightarrow>
               if b = [] then (self1, [], None)
               else
                 then_do (prints L self1 [body_heading b]) (\<lambda>self1.
                   case utf8_decode L b of
                     None \<Rightarrow> prints L self1 [binary_placeholder b]
                   | Some body_text \<Rightarrow>
                      (case json_loads L body_text of
                         JSONDecodeError \<Rightarrow> prints L self1 [body_text]
                       | Raised err \<Rightarrow> (self1, [], Some err)
                       | Parsed json_body \<Rightarrow>
                          (case cache_and_replace L self1 json_body [] of
                             (self2, Inl err) \<Rightarrow> (self2, [], Some err)
                           | (self2, Inr cached_body) \<Rightarrow>
                              (let filtered_body = filter_tools self2 cached_body
                               in prints L self2 [format_json filtered_body 0 False])))))
           (\<lambda>self2. prints L self2 [[]])))"

definition print_response ::
  "pylib \<Rightarrow> ProxyServer \<Rightarrow> ustr \<Rightarrow> int \<Rightarrow> (ustr \<times> ustr) list \<Rightarrow> bytes option
     \<Rightarrow> trace" where
  "print_response L self now status headers body =
     then_do (prints L self (response_heading self now status headers)) (\<lambda>self.
     then_do
       (case body of
          None \<Rightarrow> (self, [], None)
        | Some b \<Rightarrow>
           if b = [] then (self, [], None)
           else
             then_do (prints L self [body_heading b]) (\<lambda>self.
               case utf8_decode L b of
                 None \<Rightarrow> prints L self [binary_placeholder b]
               | Some body_text \<Rightarrow>
                  if startswith (u ''event: '') (strip body_text) then
                    (case parse_streaming_response L body_text of
                       Inl err \<Rightarrow> (self, [], Some err)
                     | Inr condensed \<Rightarrow> prints L self [condensed])
                  else
                    (case json_loads L body_text of
                       JSONDecodeError \<Rightarrow> prints L self [body_text]
                     | Raised err \<Rightarrow> (self, [], Some err)
                     | Parsed json_body \<Rightarrow>
                        (case cache_and_replace L self json_body [] of
                           (self2, Inl err) \<Rightarrow> (self2, [], Some err)
                         | (self2, Inr cached_body) \<Rightarrow>
                            (let filtered_body = filter_tools self2 cached_body
                             in prints L self2 [format_json filtered_body 0 False])))))
       (\<lambda>self2. prints L self2 [[]]))"

section \<open>Notions the properties are stated with\<close>

text \<open>
  Two values are the same up to insertion order when they differ at most in the order
  in which mappings list their entries, at any depth: the equality Python's \<open>==\<close>
  decides on values of the same types.
\<close>

inductive same_json :: "json \<Rightarrow> json \<Rightarrow> bool" where
  same_null: "same_json JNull JNull"
| same_bool: "same_json (JBool b) (JBool b)"
| same_int: "same_json (JInt i) (JInt i)"
| same_str: "same_json (JStr s) (JStr s)"
| same_list: "list_all2 same_json xs ys \<Longrightarrow> same_json (JList xs) (JList ys)"
| same_dict:
    "list_all2 (\<lambda>p q. fst p = fst q \<and> same_json (snd p) (snd q)) xs zs
     \<Longrightarrow> mset zs = mset ys \<Longrightarrow> distinct (map fst xs)
     \<Longrightarrow> same_json (JDict xs) (JDict ys)"

text \<open>
  The fingerprint of a value is what \<open>compute_hash\<close> returns for it (lemma
  \<open>compute_hash_total\<close> below).  \<open>remember\<close> is the assignment
  \<open>self.json_cache[value_hash] = preview\<close>.  One proxy state extends another when
  they differ in the cache only and every entry of the first is an entry of the second.
\<close>

definition fingerprint :: "pylib \<Rightarrow> json \<Rightarrow> ustr" where
  "fingerprint L v = sha256_hexdigest L (dumps v)"

definition remember :: "ProxyServer \<Rightarrow> ustr \<Rightarrow> ustr \<Rightarrow> ProxyServer" where
  "remember self h p = self\<lparr>json_cache := (json_cache self)(h \<mapsto> p)\<rparr>"

definition extends :: "ProxyServer \<Rightarrow> ProxyServer \<Rightarrow> bool" where
  "extends self self' =
     (self' = self\<lparr>json_cache := json_cache self'\<rparr>
      \<and> (\<forall>k x. json_cache self k = Some x \<longrightarrow> json_cache self' k = Some x))"

text \<open>
  The path \<open>cache_and_replace\<close> hands to the value of a key and to the element at an
  index, and the test that makes it copy an entry as it is.
\<close>

definition child_path :: "ustr \<Rightarrow> ustr \<Rightarrow> ustr" where
  "child_path path key = (if path \<noteq> [] then path @ u ''.'' @ key else key)"

definition elem_path :: "ustr \<Rightarrow> nat \<Rightarrow> ustr" where
  "elem_path path i = path @ u ''['' @ str_of_nat i @ u '']''"

definition exempt :: "ustr \<Rightarrow> ustr \<Rightarrow> bool" where
  "exempt path key = (path = [] \<and> key \<in> set exempt_keys)"

text \<open>The composite parts of a value, itself included, in the order of a walk.\<close>

fun composites :: "json \<Rightarrow> json list"
  and composites_list :: "json list \<Rightarrow> json list"
  and composites_items :: "(ustr \<times> json) list \<Rightarrow> json list" where
  "composites (JDict kvs) = JDict kvs # composites_items kvs"
| "composites (JList xs) = JList xs # composites_list xs"
| "composites JNull = []"
| "composites (JBool b) = []"
| "composites (JInt i) = []"
| "composites (JStr s) = []"
| "composites_list [] = []"
| "composites_list (x # xs) = composites x @ composites_list xs"
| "composites_items [] = []"
| "composites_items (kv # kvs) = composites (snd kv) @ composites_items kvs"

text \<open>
  A list of values is fresh for a proxy when their fingerprints differ from one another
  and none is in the cache; a cache grows by a list of values when every new entry is
  the fingerprint of one of them.
\<close>

definition fresh_for :: "pylib \<Rightarrow> ProxyServer \<Rightarrow> json list \<Rightarrow> bool" where
  "fresh_for L self cs =
     (distinct (map (fingerprint L) cs) \<and> (\<forall>c\<in>set cs. json_cache self (fingerprint L c) = None))"

definition grows_by :: "pylib \<Rightarrow> ProxyServer \<Rightarrow> ProxyServer \<Rightarrow> json list \<Rightarrow> bool" where
  "grows_by L self self' cs =
     (\<forall>h. json_cache self' h \<noteq> None \<longrightarrow> json_cache self h \<noteq> None \<or> h \<in> fingerprint L ` set cs)"

text \<open>A text of code points below 128 only.\<close>

definition ascii :: "ustr \<Rightarrow> bool" where
  "ascii s = (\<forall>c\<in>set s. c < 128)"

text \<open>
  A library for the worked examples: the digest of a byte string is the byte string
  itself, no text parses as JSON, ASCII bytes decode to themselves and no other byte
  string decodes, every code point counts as printable, and standard output encodes
  every text.
\<close>

definition example_lib :: pylib where
  "example_lib =
     \<lparr>sha256_hexdigest = (\<lambda>b. b), json_loads = (\<lambda>t. JSONDecodeError),
      utf8_decode = (\<lambda>b. if ascii b then Some b else None), isprintable = (\<lambda>c. True),
      stdout_encodes = (\<lambda>s. True)\<rparr>"

text \<open>
  The events of a stream as the API sends them: the start of a message, a fragment of
  text, the end of the message.
\<close>

definition message_start_event :: "ustr \<Rightarrow> ustr \<Rightarrow> event" where
  "message_start_event model ident =
     \<lparr>event_name = u ''message_start'',
      event_data = JDict [(u ''type'', JStr (u ''message_start'')),
                          (u ''message'', JDict [(u ''model'', JStr model), (u ''id'', JStr ident)])]\<rparr>"

definition text_delta_event :: "ustr \<Rightarrow> event" where
  "text_delta_event t =
     \<lparr>event_name = u ''content_block_delta'',
      event_data = JDict [(u ''type'', JStr (u ''content_block_delta'')),
                          (u ''index'', JInt 0),
                          (u ''delta'', JDict [(u ''type'', JStr (u ''text_delta'')),
                                               (u ''text'', JStr t)])]\<rparr>"

definition message_stop_event :: event where
  "message_stop_event =
     \<lparr>event_name = u ''message_stop'',
      event_data = JDict [(u ''type'', JStr (u ''message_stop''))]\<rparr>"

text \<open>
  A stream of four events, as a response body carries it, and \<open>json.loads\<close> on its
  four payloads.  \<open>dq\<close> writes a literal between double quotes.
\<close>

definition dq :: "string \<Rightarrow> ustr" where
  "dq s = [34] @ u s @ [34]"

definition payload_start :: ustr where
  "payload_start =
     u ''{'' @ dq ''type'' @ u '':'' @ dq ''message_start'' @ u '','' @ dq ''message'' @ u '':{''
     @ dq ''model'' @ u '':'' @ dq ''m1'' @ u '','' @ dq ''id'' @ u '':'' @ dq ''msg_1'' @ u ''}}''"

definition payload_delta :: "string \<Rightarrow> ustr" where
  "payload_delta t =
     u ''{'' @ dq ''type'' @ u '':'' @ dq ''content_block_delta'' @ u '','' @ dq ''index''
     @ u '':0,'' @ dq ''delta'' @ u '':{'' @ dq ''type'' @ u '':'' @ dq ''text_delta'' @ u '',''
     @ dq ''text'' @ u '':'' @ dq t @ u ''}}''"

definition payload_stop :: ustr where
  "payload_stop = u ''{'' @ dq ''type'' @ u '':'' @ dq ''message_stop'' @ u ''}''"

definition example_stream :: ustr where
  "example_stream =
     u ''event: message_start'' @ [10] @ u ''data: '' @ payload_start @ [10, 10]
     @ u ''event: content_block_delta'' @ [10] @ u ''data: '' @ payload_delta ''Hel'' @ [10, 10]
     @ u ''event: content_block_delta'' @ [10] @ u ''data: '' @ payload_delta ''lo'' @ [10, 10]
     @ u ''event: message_stop'' @ [10] @ u ''data: '' @ payload_stop @ [10, 10]"

definition example_stream_lib :: pylib where
  "example_stream_lib =
     example_lib\<lparr>json_loads :=
       (\<lambda>t. if t = payload_start
              then Parsed (event_data (message_start_event (u ''m1'') (u ''msg_1'')))
            else if t = payload_delta ''Hel'' then Parsed (event_data (text_delta_event (u ''Hel'')))
            else if t = payload_delta ''lo'' then Parsed (event_data (text_delta_event (u ''lo'')))
            else if t = payload_stop then Parsed (event_data message_stop_event)
            else JSONDecodeError)\<rparr>"




text \<open>
  A body of 100000 opening brackets.  It is not JSON, and \<open>json.loads\<close> gives up on
  it with \<open>RecursionError\<close>, which is not a \<open>JSONDecodeError\<close>.
\<close>

definition deep_brackets :: ustr where
  "deep_brackets = replicate 100000 91"

definition deep_brackets_lib :: pylib where
  "deep_brackets_lib =
     example_lib\<lparr>json_loads :=
       (\<lambda>t. if t = deep_brackets then Raised RecursionError else JSONDecodeError)\<rparr>"

definition example_proxy :: ProxyServer where
  "example_proxy =
     \<lparr>target_host = u ''api.anthropic.com'', target_scheme = u ''https'',
      show_headers = False, show_event_logging = False, show_tools = False,
      cache_json = True, request_count = 0, json_cache = Map.empty\<rparr>"

section \<open>Properties of the library functions\<close>

lemma u_Nil [simp]: "u [] = []"
  by (simp add: u_def)

lemma u_Cons [simp]: "u (c # cs) = of_char c # u cs"
  by (simp add: u_def)

lemma str_of_nat_digit: "n < 10 \<Longrightarrow> str_of_nat n = [48 + n]"
  by (simp add: str_of_nat.simps)

lemma ascii_simps [simp]:
  "ascii []"
  "ascii (c # s) \<longleftrightarrow> c < 128 \<and> ascii s"
  "ascii (s @ t) \<longleftrightarrow> ascii s \<and> ascii t"
  by (auto simp: ascii_def)

lemma hexdigit_ascii: "d < 16 \<Longrightarrow> hexdigit d < 128"
  by (simp add: hexdigit_def)

lemma hex2_ascii: "ascii (hex2 n)"
  by (simp add: hex2_def hexdigit_ascii)

lemma hex4_ascii: "ascii (hex4 n)"
  by (simp add: hex4_def hex2_ascii)

lemma escape_char_ascii: "ascii (escape_char c)"
  by (simp add: escape_char_def hex4_ascii)

lemma encode_basestring_ascii_ascii: "ascii (encode_basestring_ascii s)"
  by (induction s) (simp_all add: encode_basestring_ascii_def escape_char_ascii)

lemma str_of_nat_ascii: "ascii (str_of_nat n)"
proof (induction n rule: str_of_nat.induct)
  case (1 n)
  show ?case
  proof (cases "n < 10")
    case True
    then show ?thesis by (simp add: str_of_nat.simps [of n])
  next
    case False
    have "n mod 10 < 10" by simp
    with False "1.IH" show ?thesis
      by (simp add: str_of_nat.simps [of n])
  qed
qed

lemma str_of_int_ascii: "ascii (str_of_int i)"
  by (simp add: str_of_int_def str_of_nat_ascii)

lemma join_ascii: "ascii sep \<Longrightarrow> \<forall>x\<in>set xs. ascii x \<Longrightarrow> ascii (join sep xs)"
  by (induction sep xs rule: join.induct) auto

lemma dumps_ascii:
  "ascii (dumps v)"
  "\<forall>x\<in>set (dumps_list xs). ascii x"
  "\<forall>p\<in>set (dumps_items kvs). ascii (snd p)"
proof (induction v and xs and kvs rule: dumps_dumps_list_dumps_items.induct)
  case (3 i)
  then show ?case by (simp add: str_of_int_ascii)
next
  case (4 s)
  then show ?case by (simp add: encode_basestring_ascii_ascii)
next
  case (5 xs)
  then show ?case by (simp add: join_ascii)
next
  case (6 kvs)
  show ?case
  proof (cases "kvs = []")
    case True
    then show ?thesis by simp
  next
    case False
    with 6 have "\<forall>x\<in>set (map (\<lambda>(k, s). encode_basestring_ascii k @ u '': '' @ s)
                        (sort_key fst (dumps_items kvs))). ascii x"
      by (auto simp: encode_basestring_ascii_ascii)
    then show ?thesis by (simp add: join_ascii)
  qed
qed simp_all

lemma encode_ascii: "ascii s \<Longrightarrow> encode s = Inr s"
  by (induction s) (auto simp: encode_char_def)

lemma compute_hash_total: "compute_hash L v = Inr (sha256_hexdigest L (dumps v))"
  by (simp add: compute_hash_def encode_ascii dumps_ascii)

text \<open>Sorting by key does not depend on the order before, when no key occurs twice.\<close>

lemma filter_same_key:
  "distinct (map fst zs) \<Longrightarrow> k \<in> set zs \<Longrightarrow> filter (\<lambda>x. fst k = fst x) zs = [k]"
  by (induction zs) (auto simp: rev_image_eqI filter_empty_conv)

lemma sort_key_fst_unique:
  fixes xs ys :: "('k::linorder \<times> 'v) list"
  assumes "mset xs = mset ys" and "distinct (map fst xs)"
  shows "sort_key fst xs = sort_key fst ys"
proof (rule properties_for_sort_key)
  show "mset (sort_key fst ys) = mset xs"
    using assms by simp
  show "sorted (map fst (sort_key fst ys))"
    by simp
  fix k
  assume k_sorted: "k \<in> set (sort_key fst ys)"
  then have k: "k \<in> set xs"
    using assms(1) by (metis mset_eq_setD set_sort)
  have "mset (map fst (sort_key fst ys)) = mset (map fst xs)"
    using assms(1) by simp
  then have "distinct (map fst (sort_key fst ys))"
    using assms(2) by (metis mset_eq_imp_distinct_iff)
  then have "filter (\<lambda>x. fst k = fst x) (sort_key fst ys) = [k]"
    using k_sorted by (rule filter_same_key)
  moreover have "filter (\<lambda>x. fst k = fst x) xs = [k]"
    using assms(2) k by (rule filter_same_key)
  ultimately show "filter (\<lambda>x. fst k = fst x) (sort_key fst ys) = filter (\<lambda>x. fst k = fst x) xs"
    by simp
qed

lemma dumps_items_eq: "dumps_items kvs = map (\<lambda>kv. (fst kv, dumps (snd kv))) kvs"
  by (induction kvs) auto

lemma map_fst_dumps_items: "map fst (dumps_items kvs) = map fst kvs"
  by (induction kvs) auto

lemma dumps_list_eq: "dumps_list xs = map dumps xs"
  by (induction xs) auto

lemma same_json_dumps: "same_json a b \<Longrightarrow> dumps a = dumps b"
proof (induction rule: same_json.induct)
  case (same_list xs ys)
  then have "map dumps xs = map dumps ys"
    by (induction rule: list_all2_induct) auto
  moreover have "xs = [] \<longleftrightarrow> ys = []"
    using same_list by auto
  ultimately show ?case by (simp add: dumps_list_eq)
next
  case (same_dict xs zs ys)
  from same_dict.IH have xz: "dumps_items xs = dumps_items zs"
    by (induction rule: list_all2_induct) auto
  have "mset (dumps_items zs) = mset (dumps_items ys)"
    using same_dict.hyps(1) by (simp add: dumps_items_eq)
  moreover have "distinct (map fst (dumps_items zs))"
    using same_dict.hyps(2) by (simp add: xz [symmetric] map_fst_dumps_items)
  ultimately have "sort_key fst (dumps_items zs) = sort_key fst (dumps_items ys)"
    by (rule sort_key_fst_unique)
  moreover have "xs = [] \<longleftrightarrow> ys = []"
    using same_dict.IH same_dict.hyps(1) by auto
  ultimately show ?case using xz by simp
qed simp_all

lemma reorder_dumps:
  assumes "distinct (map fst xs)" and "mset ys = mset xs"
  shows "dumps (JDict ys) = dumps (JDict xs)"
proof -
  have "mset (dumps_items ys) = mset (dumps_items xs)"
    using assms(2) by (simp add: dumps_items_eq)
  moreover have "distinct (map fst (dumps_items ys))"
    using assms by (simp add: map_fst_dumps_items) (metis mset_eq_imp_distinct_iff mset_map)
  ultimately have "sort_key fst (dumps_items ys) = sort_key fst (dumps_items xs)"
    by (rule sort_key_fst_unique)
  moreover have "xs = [] \<longleftrightarrow> ys = []"
    using assms(2) by auto
  ultimately show ?thesis by simp
qed

section \<open>The fingerprint is canonical\<close>

text \<open>
  C4.  \<open>compute_hash\<close> is a function of the canonical text of the value alone: it
  never raises, whatever code points the strings of the value hold (the text it hashes
  is ASCII, every other code point being escaped), and two values that are the same up
  to the insertion order of their mappings have the same fingerprint; in particular a
  mapping and any reordering of its entries.
\<close>

theorem compute_hash_canonical:
  "compute_hash L v = Inr (sha256_hexdigest L (dumps v))
   \<and> ascii (dumps v)
   \<and> (same_json v w \<longrightarrow> compute_hash L w = compute_hash L v)
   \<and> (distinct (map fst xs) \<and> mset ys = mset xs
        \<longrightarrow> compute_hash L (JDict ys) = compute_hash L (JDict xs))"
proof (intro conjI impI)
  show "compute_hash L v = Inr (sha256_hexdigest L (dumps v))"
    by (rule compute_hash_total)
  show "ascii (dumps v)"
    by (rule dumps_ascii)
next
  assume "same_json v w"
  then have "dumps w = dumps v"
    by (rule same_json_dumps [symmetric])
  then show "compute_hash L w = compute_hash L v"
    by (simp only: compute_hash_total)
next
  assume "distinct (map fst xs) \<and> mset ys = mset xs"
  then have "dumps (JDict ys) = dumps (JDict xs)"
    by (simp only: reorder_dumps)
  then show "compute_hash L (JDict ys) = compute_hash L (JDict xs)"
    by (simp only: compute_hash_total)
qed

text \<open>
  An instance: a mapping whose entries, and the entries of a nested mapping, come in
  another order, with a lone surrogate and a non-ASCII letter in a string.  The
  fingerprint is that of the text \<open>{"a": 1, "b": "\ud800\u00e9"}\<close>, while encoding
  the string itself would raise.
\<close>

theorem compute_hash_canonical_witness:
  "same_json
     (JDict [(u ''b'', JStr [55296, 233]),
             (u ''a'', JList [JInt 1, JDict [(u ''y'', JNull), (u ''x'', JBool True)]])])
     (JDict [(u ''a'', JList [JInt 1, JDict [(u ''x'', JBool True), (u ''y'', JNull)]]),
             (u ''b'', JStr [55296, 233])])
   \<and> compute_hash example_lib
        (JDict [(u ''a'', JList [JInt 1, JDict [(u ''x'', JBool True), (u ''y'', JNull)]]),
                (u ''b'', JStr [55296, 233])])
     = compute_hash example_lib
        (JDict [(u ''b'', JStr [55296, 233]),
                (u ''a'', JList [JInt 1, JDict [(u ''y'', JNull), (u ''x'', JBool True)]])])
   \<and> compute_hash example_lib (JDict [(u ''b'', JStr [55296, 233]), (u ''a'', JInt 1)])
     = compute_hash example_lib (JDict [(u ''a'', JInt 1), (u ''b'', JStr [55296, 233])])
   \<and> compute_hash example_lib (JDict [(u ''b'', JStr [55296, 233]), (u ''a'', JInt 1)])
     = Inr ([123, 34, 97, 34, 58, 32, 49, 44, 32, 34, 98, 34, 58, 32, 34]
            @ [92] @ u ''ud800'' @ [92] @ u ''u00e9'' @ [34, 125])
   \<and> encode [55296, 233] = Inl UnicodeEncodeError"
proof -
  let ?inner1 = "JDict [(u ''y'', JNull), (u ''x'', JBool True)]"
  let ?inner2 = "JDict [(u ''x'', JBool True), (u ''y'', JNull)]"
  let ?v = "JDict [(u ''b'', JStr [55296, 233]), (u ''a'', JList [JInt 1, ?inner1])]"
  let ?w = "JDict [(u ''a'', JList [JInt 1, ?inner2]), (u ''b'', JStr [55296, 233])]"
  have i: "same_json ?inner1 ?inner2"
    by (rule same_dict [where zs = "[(u ''y'', JNull), (u ''x'', JBool True)]"])
       (simp_all add: same_json.intros)
  have l: "same_json (JList [JInt 1, ?inner1]) (JList [JInt 1, ?inner2])"
    using i by (intro same_list) (simp add: same_json.intros)
  have s: "same_json ?v ?w"
    by (rule same_dict [where zs = "[(u ''b'', JStr [55296, 233]), (u ''a'', JList [JInt 1, ?inner2])]"])
       (use l in \<open>simp_all add: same_json.intros\<close>)
  have d: "distinct (map fst [(u ''a'', JInt 1), (u ''b'', JStr [55296, 233])])
           \<and> mset [(u ''b'', JStr [55296, 233]), (u ''a'', JInt 1)]
             = mset [(u ''a'', JInt 1), (u ''b'', JStr [55296, 233])]"
    by simp
  note t = compute_hash_canonical [of example_lib ?v ?w
      "[(u ''a'', JInt 1), (u ''b'', JStr [55296, 233])]"
      "[(u ''b'', JStr [55296, 233]), (u ''a'', JInt 1)]"]
  have e: "encode [55296, 233] = Inl UnicodeEncodeError"
    by (simp add: encode_char_def)
  have c: "compute_hash example_lib (JDict [(u ''a'', JInt 1), (u ''b'', JStr [55296, 233])])
     = Inr ([123, 34, 97, 34, 58, 32, 49, 44, 32, 34, 98, 34, 58, 32, 34]
            @ [92] @ u ''ud800'' @ [92] @ u ''u00e9'' @ [34, 125])"
    by (simp add: compute_hash_total example_lib_def encode_basestring_ascii_def escape_char_def
          hex4_def hex2_def hexdigit_def str_of_int_def str_of_nat_digit)
  from t s d c e show ?thesis by simp
qed

section \<open>The preview builder is partial\<close>

text \<open>
  C10.  \<open>create_preview\<close> is not total: for a mapping that has a \<open>"type"\<close> key and
  a \<open>"text"\<close> key whose value is \<open>None\<close>, a \<open>bool\<close> or an \<open>int\<close>, it raises
  \<open>TypeError\<close> (\<open>len\<close> of a value without a length), and so does
  \<open>cache_and_replace\<close> when caching is on and the mapping is not in the cache yet;
  the cache is then left as it was.
\<close>

theorem create_preview_not_total:
  assumes "map_of kvs (u ''type'') = Some ty"
    and "map_of kvs (u ''text'') = Some text"
    and "text = JNull \<or> (\<exists>b. text = JBool b) \<or> (\<exists>i. text = JInt i)"
  shows "create_preview L (JDict kvs) max_length = Inl TypeError
    \<and> (cache_json self \<and> json_cache self (sha256_hexdigest L (dumps (JDict kvs))) = None
         \<longrightarrow> cache_and_replace L self (JDict kvs) path = (self, Inl TypeError))"
proof -
  from assms(3) have len: "py_len text = Inl TypeError"
    by auto
  have p: "create_preview L (JDict kvs) n = Inl TypeError" for n
    using assms(1,2) len by simp
  show ?thesis
    using p [of 60] p [of max_length]
    by (simp add: compute_hash_total del: create_preview.simps dumps.simps)
qed

text \<open>The mapping \<open>{"type": "t", "text": 5}\<close>, met by a proxy with an empty cache.\<close>

theorem create_preview_not_total_witness:
  "map_of [(u ''type'', JStr (u ''t'')), (u ''text'', JInt 5)] (u ''type'') = Some (JStr (u ''t''))
   \<and> map_of [(u ''type'', JStr (u ''t'')), (u ''text'', JInt 5)] (u ''text'') = Some (JInt 5)
   \<and> create_preview example_lib (JDict [(u ''type'', JStr (u ''t'')), (u ''text'', JInt 5)]) 60
       = Inl TypeError
   \<and> cache_json example_proxy
   \<and> json_cache example_proxy
        (sha256_hexdigest example_lib
           (dumps (JDict [(u ''type'', JStr (u ''t'')), (u ''text'', JInt 5)])))
       = None
   \<and> cache_and_replace example_lib example_proxy
        (JDict [(u ''type'', JStr (u ''t'')), (u ''text'', JInt 5)]) []
       = (example_proxy, Inl TypeError)"
proof -
  have a: "map_of [(u ''type'', JStr (u ''t'')), (u ''text'', JInt 5)] (u ''type'')
           = Some (JStr (u ''t''))"
    by simp
  have b: "map_of [(u ''type'', JStr (u ''t'')), (u ''text'', JInt 5)] (u ''text'') = Some (JInt 5)"
    by simp
  have c: "JInt 5 = JNull \<or> (\<exists>b. JInt 5 = JBool b) \<or> (\<exists>i. JInt 5 = JInt i)"
    by simp
  have d: "cache_json example_proxy" "json_cache example_proxy k = None" for k
    by (simp_all add: example_proxy_def)
  from create_preview_not_total [OF a b c, of example_lib 60 example_proxy "[]"] a b d
  show ?thesis by simp
qed

section \<open>The renderer and text-bearing fields\<close>

lemma split_at_nonempty: "split_at c s \<noteq> []"
  by (induction s) (auto split: list.splits)

lemma split_at_no_sep: "\<forall>l\<in>set (split_at c s). c \<notin> set l"
  by (induction s) (auto split: list.splits)

lemma join_Cons_Cons: "join sep ((x # l) # ls) = x # join sep (l # ls)"
  by (cases ls) simp_all

lemma join_Nil_Cons: "join sep ([] # l # ls) = sep @ join sep (l # ls)"
  by simp

lemma join_split_at: "join [c] (split_at c s) = s"
proof (induction s)
  case Nil
  then show ?case by simp
next
  case (Cons x xs)
  obtain l ls where "split_at c xs = l # ls"
    using split_at_nonempty [of c xs] by (cases "split_at c xs") auto
  with Cons show ?case
    by (simp add: join_Cons_Cons join_Nil_Cons del: join.simps)
qed

lemma format_items_Cons:
  "format_items ((k, v) # kvs) indent =
     (indent_str indent @ u ''  '' @ [34] @ k @ [34] @ u '': ''
      @ format_json v (indent + 1) (k = u ''text'' \<or> k = u ''content''))
     # format_items kvs indent"
  by (auto simp: text_keys_def)

text \<open>
  C7.  In \<open>format_json\<close> the flag handed to the value of a mapping entry is computed
  from the key of that entry alone: it is true exactly when the key is \<open>"text"\<close> or
  \<open>"content"\<close>, and the flag the mapping itself was given plays no part.  A string
  with a line feed, rendered with the flag set, is written as its lines, each indented on
  a line of its own, between the colour code and the reset: the lines are the maximal
  pieces without a line feed, and joined by line feeds they are the string again, so
  nothing is escaped.  \<open>{"text": "line1\nline2"}\<close> renders \<open>line1\<close> and \<open>line2\<close>
  on separate lines.
\<close>

theorem format_json_text_field:
  "format_items ((k, v) # kvs) indent =
     (indent_str indent @ u ''  '' @ [34] @ k @ [34] @ u '': ''
      @ format_json v (indent + 1) (k = u ''text'' \<or> k = u ''content''))
     # format_items kvs indent
   \<and> format_json (JDict kvs) indent True = format_json (JDict kvs) indent False
   \<and> (10 \<in> set s \<longrightarrow>
        format_json (JStr s) indent True =
          [10] @ TEXT_COLOR
          @ join [10] (map (\<lambda>line. indent_str indent @ u ''  '' @ line) (split_at 10 s))
          @ [10] @ indent_str indent @ RESET_ALL
        \<and> join [10] (split_at 10 s) = s
        \<and> (\<forall>line\<in>set (split_at 10 s). 10 \<notin> set line))
   \<and> format_json (JDict [(u ''text'', JStr (u ''line1'' @ [10] @ u ''line2''))]) 0 False =
        u ''{'' @ [10]
        @ u ''  '' @ [34] @ u ''text'' @ [34] @ u '': '' @ [10] @ TEXT_COLOR
        @ u ''    line1'' @ [10]
        @ u ''    line2'' @ [10]
        @ u ''  '' @ RESET_ALL @ [10]
        @ u ''}''"
proof (intro conjI impI)
  show "format_items ((k, v) # kvs) indent =
     (indent_str indent @ u ''  '' @ [34] @ k @ [34] @ u '': ''
      @ format_json v (indent + 1) (k = u ''text'' \<or> k = u ''content''))
     # format_items kvs indent"
    by (rule format_items_Cons)
  show "format_json (JDict kvs) indent True = format_json (JDict kvs) indent False"
    by simp
  show "join [10] (split_at 10 s) = s"
    by (rule join_split_at)
  show "\<forall>line\<in>set (split_at 10 s). 10 \<notin> set line"
    by (rule split_at_no_sep)
  show "format_json (JDict [(u ''text'', JStr (u ''line1'' @ [10] @ u ''line2''))]) 0 False =
        u ''{'' @ [10]
        @ u ''  '' @ [34] @ u ''text'' @ [34] @ u '': '' @ [10] @ TEXT_COLOR
        @ u ''    line1'' @ [10]
        @ u ''    line2'' @ [10]
        @ u ''  '' @ RESET_ALL @ [10]
        @ u ''}''"
    by (simp add: text_keys_def indent_str_def)
next
  assume "10 \<in> set s"
  then show "format_json (JStr s) indent True =
          [10] @ TEXT_COLOR
          @ join [10] (map (\<lambda>line. indent_str indent @ u ''  '' @ line) (split_at 10 s))
          @ [10] @ indent_str indent @ RESET_ALL"
    by simp
qed

text \<open>
  An instance: a string of three lines, the middle one empty, at depth 1; and a mapping
  rendered with the flag set whose entry \<open>"note"\<close> still gets its string escaped.
\<close>

theorem format_json_text_field_witness:
  "10 \<in> set (u ''a'' @ [10, 10] @ u ''b'')
   \<and> format_json (JStr (u ''a'' @ [10, 10] @ u ''b'')) 1 True =
       [10] @ TEXT_COLOR @ u ''    a'' @ [10] @ u ''    '' @ [10] @ u ''    b'' @ [10]
       @ u ''  '' @ RESET_ALL
   \<and> split_at 10 (u ''a'' @ [10, 10] @ u ''b'') = [u ''a'', [], u ''b'']
   \<and> format_json (JDict [(u ''data'', JDict [(u ''note'', JStr (u ''a'' @ [10] @ u ''b''))])]) 0 True =
       u ''{'' @ [10] @ u ''  '' @ [34] @ u ''data'' @ [34] @ u '': {'' @ [10]
       @ u ''    '' @ [34] @ u ''note'' @ [34] @ u '': '' @ [34] @ u ''a'' @ [92] @ u ''nb'' @ [34] @ [10]
       @ u ''  }'' @ [10] @ u ''}''"
proof -
  have m: "10 \<in> set (u ''a'' @ [10, 10] @ u ''b'')"
    by simp
  have sp: "split_at 10 (u ''a'' @ [10, 10] @ u ''b'') = [u ''a'', [], u ''b'']"
    by simp
  note t = format_json_text_field [where k = "u ''data''"
      and v = "JDict [(u ''note'', JStr (u ''a'' @ [10] @ u ''b''))]" and kvs = "[]"
      and s = "u ''a'' @ [10, 10] @ u ''b''" and indent = 1]
  from t m sp show ?thesis
    by (simp add: indent_str_def text_keys_def encode_basestring_ascii_def escape_char_def)
qed

section \<open>Runs of print calls\<close>

lemma print_lines_all: "list_all (stdout_encodes L) ls \<Longrightarrow> print_lines L ls = (ls, None)"
  by (induction ls) simp_all



lemma print_lines_raises:
  "snd (print_lines L ls) = None \<or> snd (print_lines L ls) = Some UnicodeEncodeError"
proof (induction ls)
  case Nil
  show ?case by simp
next
  case (Cons s rest)
  obtain w' r where p: "print_lines L rest = (w', r)"
    by (cases "print_lines L rest")
  with Cons show ?case by simp
qed

lemma prints_all: "list_all (stdout_encodes L) ls \<Longrightarrow> prints L self ls = (self, ls, None)"
  by (simp add: prints_def print_lines_all)


lemma prints_raises:
  "prints L self ls = (self', out, Some err) \<Longrightarrow> self' = self \<and> err = UnicodeEncodeError"
proof -
  assume a: "prints L self ls = (self', out, Some err)"
  obtain w r where p: "print_lines L ls = (w, r)"
    by (cases "print_lines L ls")
  from print_lines_raises [of L ls] p a show ?thesis
    by (auto simp: prints_def)
qed

lemma then_do_None [simp]:
  "then_do (self, out, None) f = (case f self of (self', out', r) \<Rightarrow> (self', out @ out', r))"
  by (simp add: then_do_def)

lemma then_do_Some [simp]: "then_do (self, out, Some err) f = (self, out, Some err)"
  by (simp add: then_do_def)


lemma encodes_every_text [simp]: "list_all (\<lambda>s. True) ls"
  by (simp add: list_all_iff)

section \<open>What the stream condenser returns\<close>

text \<open>
  C2 says that \<open>parse_streaming_response\<close> returns a summary for every body text and
  that an event-name line without a data line is tolerated.  It is not: for the body
  \<open>event: content_block_start\<close> the data of the event is still \<open>None\<close> when the
  summary asks it for \<open>index\<close>, and the call ends with \<open>AttributeError\<close>; the
  exception leaves \<open>print_response\<close> as well, after the heading of the body (on a
  standard output that encodes every text, so that no \<open>print\<close> fails before).
\<close>

theorem content_block_start_without_data:
  "parse_streaming_response L (u ''event: content_block_start'') = Inl AttributeError
   \<and> print_response (L\<lparr>utf8_decode := Some, stdout_encodes := \<lambda>s. True\<rparr>) self now status headers
        (Some (u ''event: content_block_start''))
     = (self,
        response_heading self now status headers @ [body_heading (u ''event: content_block_start'')],
        Some AttributeError)"
proof -
  have p: "parse_streaming_response L' (u ''event: content_block_start'') = Inl AttributeError" for L'
    by (simp add: parse_streaming_response_def parse_events_def summarize_events_def strip_def
        isspace_def startswith_def show_message_start_def show_content_block_start_def)
  have s: "startswith (u ''event: '') (strip (u ''event: content_block_start''))"
    by (simp add: strip_def isspace_def startswith_def)
  have ne: "u ''event: content_block_start'' \<noteq> []"
    by simp
  show ?thesis
    by (simp add: print_response_def Let_def prints_all p s ne del: u_Cons)
qed

lemma extract_text_delta_event:
  "extract_text_deltas (text_delta_event t # events) =
     (case extract_text_deltas events of Inl err \<Rightarrow> Inl err | Inr ts \<Rightarrow> Inr (JStr t # ts))"
  by (simp add: text_delta_event_def)

lemma extract_text_delta_events:
  "extract_text_deltas events = Inr r \<Longrightarrow>
   extract_text_deltas (map text_delta_event ts @ events) = Inr (map JStr ts @ r)"
  by (induction ts) (simp_all add: extract_text_delta_event del: extract_text_deltas.simps)

lemma join_deltas_strs: "join_deltas (map JStr ts) = Inr (concat ts)"
  by (induction ts) simp_all

lemma find_text_delta_events:
  "\<forall>t. \<not> P (text_delta_event t) \<Longrightarrow> find P (map text_delta_event ts @ events) = find P events"
  by (induction ts) simp_all

lemma event_name_simps [simp]:
  "event_name (message_start_event m i) = u ''message_start''"
  "event_name (text_delta_event t) = u ''content_block_delta''"
  "event_name message_stop_event = u ''message_stop''"
  by (simp_all add: message_start_event_def text_delta_event_def message_stop_event_def del: u_Cons)

lemma summarize_stream:
  assumes "ts \<noteq> []"
  shows "summarize_events L (message_start_event m i # map text_delta_event ts @ [message_stop_event])
    = Inr (join [10]
        [u ''Streaming response events:'',
         u ''  - message_start: model='' @ m @ u '', id='' @ i,
         u ''  - content_block_delta (merged): '' @ [34] @ concat ts @ [34],
         u ''  - message_stop''])"
proof -
  let ?events = "message_start_event m i # map text_delta_event ts @ [message_stop_event]"
  have stop: "extract_text_deltas [message_stop_event] = Inr []"
    by (simp add: message_stop_event_def)
  have ex0: "extract_text_deltas (map text_delta_event ts @ [message_stop_event]) = Inr (map JStr ts @ [])"
    using stop by (rule extract_text_delta_events)
  then have ex: "extract_text_deltas ?events = Inr (map JStr ts)"
    by (simp add: message_start_event_def)
  have ms: "show_message_start L ?events
            = Inr [u ''  - message_start: model='' @ m @ u '', id='' @ i]"
    by (simp add: show_message_start_def message_start_event_def)
  have cbs: "show_content_block_start L ?events = Inr []"
    by (simp add: show_content_block_start_def find_text_delta_events)
  have td: "show_text_deltas (map JStr ts)
            = Inr [u ''  - content_block_delta (merged): '' @ [34] @ concat ts @ [34]]"
    using assms by (simp add: show_text_deltas_def join_deltas_strs)
  have cbstop: "show_content_block_stop ?events = []"
    by (simp add: show_content_block_stop_def find_text_delta_events)
  have md: "show_message_delta L ?events = Inr []"
    by (simp add: show_message_delta_def find_text_delta_events)
  have mstop: "show_message_stop ?events = [u ''  - message_stop'']"
    by (simp add: show_message_stop_def find_text_delta_events)
  show ?thesis
    by (simp add: summarize_events_def ex0 ex ms cbs td cbstop md mstop)
qed

lemma parse_example_lines:
  assumes "json_loads L (strip d0) = Parsed (event_data (message_start_event m i))"
    and "json_loads L (strip d1) = Parsed (event_data (text_delta_event t1))"
    and "json_loads L (strip d2) = Parsed (event_data (text_delta_event t2))"
    and "json_loads L (strip d3) = Parsed (event_data message_stop_event)"
  shows "parse_lines L
      [u ''event: message_start'', u ''data: '' @ d0, [],
       u ''event: content_block_delta'', u ''data: '' @ d1, [],
       u ''event: content_block_delta'', u ''data: '' @ d2, [],
       u ''event: message_stop'', u ''data: '' @ d3] [] None
    = Inr ([message_start_event m i, text_delta_event t1, text_delta_event t2],
           Some message_stop_event)"
  using assms
  by (simp add: startswith_def strip_def isspace_def message_start_event_def text_delta_event_def
        message_stop_event_def)

text \<open>
  C8.  For the events of a stream that starts a message (model \<open>m\<close>, id \<open>i\<close>),
  carries any positive number of text fragments and stops the message, the summary is
  four lines: the header, the start of the message with \<open>m\<close> and \<open>i\<close>, one merged
  line with the fragments concatenated between double quotes, and the stop.  For a body
  whose lines are those of such a stream with model \<open>m1\<close>, id \<open>msg_1\<close> and the
  fragments \<open>Hel\<close> and \<open>lo\<close>, the merged line holds \<open>"Hello"\<close>.
\<close>

theorem stream_condensing_example:
  "(ts \<noteq> [] \<longrightarrow>
      summarize_events L (message_start_event m i # map text_delta_event ts @ [message_stop_event])
      = Inr (join [10]
          [u ''Streaming response events:'',
           u ''  - message_start: model='' @ m @ u '', id='' @ i,
           u ''  - content_block_delta (merged): '' @ [34] @ concat ts @ [34],
           u ''  - message_stop'']))
   \<and> (split_at 10 (strip body_text) =
          [u ''event: message_start'', u ''data: '' @ d0, [],
           u ''event: content_block_delta'', u ''data: '' @ d1, [],
           u ''event: content_block_delta'', u ''data: '' @ d2, [],
           u ''event: message_stop'', u ''data: '' @ d3]
        \<and> json_loads L (strip d0) = Parsed (event_data (message_start_event (u ''m1'') (u ''msg_1'')))
        \<and> json_loads L (strip d1) = Parsed (event_data (text_delta_event (u ''Hel'')))
        \<and> json_loads L (strip d2) = Parsed (event_data (text_delta_event (u ''lo'')))
        \<and> json_loads L (strip d3) = Parsed (event_data message_stop_event)
        \<longrightarrow> parse_streaming_response L body_text
            = Inr (join [10]
                [u ''Streaming response events:'',
                 u ''  - message_start: model=m1, id=msg_1'',
                 u ''  - content_block_delta (merged): '' @ [34] @ u ''Hello'' @ [34],
                 u ''  - message_stop'']))"
proof (intro conjI impI)
  assume "ts \<noteq> []"
  then show "summarize_events L (message_start_event m i # map text_delta_event ts @ [message_stop_event])
      = Inr (join [10]
          [u ''Streaming response events:'',
           u ''  - message_start: model='' @ m @ u '', id='' @ i,
           u ''  - content_block_delta (merged): '' @ [34] @ concat ts @ [34],
           u ''  - message_stop''])"
    by (rule summarize_stream)
next
  assume a: "split_at 10 (strip body_text) =
          [u ''event: message_start'', u ''data: '' @ d0, [],
           u ''event: content_block_delta'', u ''data: '' @ d1, [],
           u ''event: content_block_delta'', u ''data: '' @ d2, [],
           u ''event: message_stop'', u ''data: '' @ d3]
        \<and> json_loads L (strip d0) = Parsed (event_data (message_start_event (u ''m1'') (u ''msg_1'')))
        \<and> json_loads L (strip d1) = Parsed (event_data (text_delta_event (u ''Hel'')))
        \<and> json_loads L (strip d2) = Parsed (event_data (text_delta_event (u ''lo'')))
        \<and> json_loads L (strip d3) = Parsed (event_data message_stop_event)"
  then have "parse_events L body_text
      = Inr (message_start_event (u ''m1'') (u ''msg_1'')
             # map text_delta_event [u ''Hel'', u ''lo''] @ [message_stop_event])"
    by (simp add: parse_events_def parse_example_lines del: parse_lines.simps u_Cons)
  moreover have "summarize_events L
       (message_start_event (u ''m1'') (u ''msg_1'')
        # map text_delta_event [u ''Hel'', u ''lo''] @ [message_stop_event])
      = Inr (join [10]
          [u ''Streaming response events:'',
           u ''  - message_start: model='' @ u ''m1'' @ u '', id='' @ u ''msg_1'',
           u ''  - content_block_delta (merged): '' @ [34] @ concat [u ''Hel'', u ''lo''] @ [34],
           u ''  - message_stop''])"
    by (rule summarize_stream) simp
  ultimately show "parse_streaming_response L body_text
            = Inr (join [10]
                [u ''Streaming response events:'',
                 u ''  - message_start: model=m1, id=msg_1'',
                 u ''  - content_block_delta (merged): '' @ [34] @ u ''Hello'' @ [34],
                 u ''  - message_stop''])"
    by (simp add: parse_streaming_response_def)
qed

lemma example_stream_lines:
  "split_at 10 (strip example_stream) =
     [u ''event: message_start'', u ''data: '' @ payload_start, [],
      u ''event: content_block_delta'', u ''data: '' @ payload_delta ''Hel'', [],
      u ''event: content_block_delta'', u ''data: '' @ payload_delta ''lo'', [],
      u ''event: message_stop'', u ''data: '' @ payload_stop]"
  by (simp add: example_stream_def payload_start_def payload_delta_def payload_stop_def dq_def
        strip_def isspace_def)

lemma example_stream_loads:
  "json_loads example_stream_lib (strip payload_start)
     = Parsed (event_data (message_start_event (u ''m1'') (u ''msg_1'')))"
  "json_loads example_stream_lib (strip (payload_delta ''Hel''))
     = Parsed (event_data (text_delta_event (u ''Hel'')))"
  "json_loads example_stream_lib (strip (payload_delta ''lo''))
     = Parsed (event_data (text_delta_event (u ''lo'')))"
  "json_loads example_stream_lib (strip payload_stop) = Parsed (event_data message_stop_event)"
  by (simp_all add: example_stream_lib_def payload_start_def payload_delta_def payload_stop_def
        dq_def strip_def isspace_def)

text \<open>The stream \<open>example_stream\<close>, and the same events with a third fragment.\<close>

theorem stream_condensing_example_witness:
  "[u ''Hel'', u ''lo'', u ''!''] \<noteq> []
   \<and> summarize_events example_stream_lib
        (message_start_event (u ''m1'') (u ''msg_1'')
         # map text_delta_event [u ''Hel'', u ''lo'', u ''!''] @ [message_stop_event])
      = Inr (join [10]
          [u ''Streaming response events:'',
           u ''  - message_start: model=m1, id=msg_1'',
           u ''  - content_block_delta (merged): '' @ [34] @ u ''Hello!'' @ [34],
           u ''  - message_stop''])
   \<and> split_at 10 (strip example_stream) =
       [u ''event: message_start'', u ''data: '' @ payload_start, [],
        u ''event: content_block_delta'', u ''data: '' @ payload_delta ''Hel'', [],
        u ''event: content_block_delta'', u ''data: '' @ payload_delta ''lo'', [],
        u ''event: message_stop'', u ''data: '' @ payload_stop]
   \<and> json_loads example_stream_lib (strip payload_start)
       = Parsed (event_data (message_start_event (u ''m1'') (u ''msg_1'')))
   \<and> json_loads example_stream_lib (strip (payload_delta ''Hel''))
       = Parsed (event_data (text_delta_event (u ''Hel'')))
   \<and> json_loads example_stream_lib (strip (payload_delta ''lo''))
       = Parsed (event_data (text_delta_event (u ''lo'')))
   \<and> json_loads example_stream_lib (strip payload_stop) = Parsed (event_data message_stop_event)
   \<and> parse_streaming_response example_stream_lib example_stream
       = Inr (join [10]
           [u ''Streaming response events:'',
            u ''  - message_start: model=m1, id=msg_1'',
            u ''  - content_block_delta (merged): '' @ [34] @ u ''Hello'' @ [34],
            u ''  - message_stop''])"
proof -
  note t = stream_condensing_example [where L = example_stream_lib
      and ts = "[u ''Hel'', u ''lo'', u ''!'']" and m = "u ''m1''" and i = "u ''msg_1''"
      and body_text = example_stream and ?d0.0 = payload_start and ?d1.0 = "payload_delta ''Hel''"
      and ?d2.0 = "payload_delta ''lo''" and ?d3.0 = payload_stop]
  have ne: "[u ''Hel'', u ''lo'', u ''!''] \<noteq> []"
    by simp
  from t ne example_stream_lines example_stream_loads show ?thesis
    by (simp del: u_Cons join.simps split_at.simps) (simp)
qed

section \<open>Bodies that are not JSON\<close>

text \<open>
  What the two handlers recover.  For a body that is there (not empty): when its bytes do
  not decode, both \<open>print_request\<close> and \<open>print_response\<close> write the heading of the
  body and the placeholder with the number of bytes; when they decode to a text on which
  \<open>json.loads\<close> raises \<open>JSONDecodeError\<close> (and which, for a response, does not
  start with \<open>event: \<close> once stripped), they write the heading of the body and the
  decoded text itself.  In both cases the call ends without an exception and with the
  cache as it was, on a standard output that encodes the lines.
\<close>

lemma undecodable_body:
  assumes "b \<noteq> []" and "utf8_decode L b = None"
  shows "(list_all (stdout_encodes L)
         (request_heading (self\<lparr>request_count := request_count self + 1\<rparr>) now verb path headers @ [body_heading b, u ''  [Binary data: '' @ str_of_nat (length b) @ u '' bytes]'', []])
       \<longrightarrow> print_request L self now verb path headers (Some b)
           = (self\<lparr>request_count := request_count self + 1\<rparr>,
              request_heading (self\<lparr>request_count := request_count self + 1\<rparr>) now verb path headers @ [body_heading b, u ''  [Binary data: '' @ str_of_nat (length b) @ u '' bytes]'', []],
              None))
    \<and> (list_all (stdout_encodes L)
         (response_heading self now status headers
          @ [body_heading b, u ''  [Binary data: '' @ str_of_nat (length b) @ u '' bytes]'', []])
       \<longrightarrow> print_response L self now status headers (Some b)
           = (self,
              response_heading self now status headers
              @ [body_heading b, u ''  [Binary data: '' @ str_of_nat (length b) @ u '' bytes]'', []],
              None))"
  using assms
  by (simp add: print_request_def print_response_def Let_def prints_all binary_placeholder_def
        del: u_Cons)

lemma text_body_not_json:
  assumes "b \<noteq> []" and "utf8_decode L b = Some body_text"
    and "json_loads L body_text = JSONDecodeError"
  shows "(list_all (stdout_encodes L) (request_heading (self\<lparr>request_count := request_count self + 1\<rparr>) now verb path headers @ [body_heading b, body_text, []])
       \<longrightarrow> print_request L self now verb path headers (Some b)
           = (self\<lparr>request_count := request_count self + 1\<rparr>, request_heading (self\<lparr>request_count := request_count self + 1\<rparr>) now verb path headers @ [body_heading b, body_text, []], None))
    \<and> (list_all (stdout_encodes L)
         (response_heading self now status headers @ [body_heading b, body_text, []])
       \<and> \<not> startswith (u ''event: '') (strip body_text)
       \<longrightarrow> print_response L self now status headers (Some b)
           = (self, response_heading self now status headers @ [body_heading b, body_text, []],
              None))"
  using assms
  by (simp add: print_request_def print_response_def Let_def prints_all del: u_Cons)

text \<open>
  The placeholder on two examples: a request body of the two bytes \<open>ff fe\<close> and a
  response body of twelve bytes \<open>ff\<close>, neither of which is UTF-8.
\<close>

lemma undecodable_body_example:
  "print_request example_lib example_proxy (u ''2025-01-01 00:00:00.000000'')
        (u ''POST'') (u ''/v1/messages'') [] (Some [255, 254])
     = (example_proxy\<lparr>request_count := 1\<rparr>,
        request_heading (example_proxy\<lparr>request_count := 1\<rparr>) (u ''2025-01-01 00:00:00.000000'')
          (u ''POST'') (u ''/v1/messages'') []
        @ [[10] @ Fore_CYAN @ u ''Body (2 bytes):'', u ''  [Binary data: 2 bytes]'', []],
        None)"
  "print_response example_lib example_proxy (u ''2025-01-01 00:00:00.000000'') 200 []
        (Some (replicate 12 255))
     = (example_proxy,
        response_heading example_proxy (u ''2025-01-01 00:00:00.000000'') 200 []
        @ [[10] @ Fore_CYAN @ u ''Body (12 bytes):'', u ''  [Binary data: 12 bytes]'', []],
        None)"
proof -
  have e: "stdout_encodes example_lib s" "list_all (stdout_encodes example_lib) ls" for s ls
    by (simp_all add: example_lib_def list_all_iff)
  have c: "request_count example_proxy + 1 = 1"
    by (simp add: example_proxy_def)
  have d: "utf8_decode example_lib [255, 254] = None"
    "utf8_decode example_lib (replicate 12 255) = None"
    by (simp_all add: example_lib_def ascii_def)
  have h: "body_heading [255, 254] = [10] @ Fore_CYAN @ u ''Body (2 bytes):''"
    "body_heading (replicate 12 255) = [10] @ Fore_CYAN @ u ''Body (12 bytes):''"
    "u ''  [Binary data: '' @ str_of_nat (length [255, 254 :: nat]) @ u '' bytes]''
       = u ''  [Binary data: 2 bytes]''"
    "u ''  [Binary data: '' @ str_of_nat (length (replicate 12 (255 :: nat))) @ u '' bytes]''
       = u ''  [Binary data: 12 bytes]''"
    by (simp_all add: body_heading_def str_of_nat.simps)
  have n: "[255, 254] \<noteq> ([] :: bytes)" "replicate 12 255 \<noteq> ([] :: bytes)"
    by simp_all
  from undecodable_body [OF n(1) d(1), where self = example_proxy
      and now = "u ''2025-01-01 00:00:00.000000''" and verb = "u ''POST''"
      and path = "u ''/v1/messages''" and headers = "[]"] e c h
  show "print_request example_lib example_proxy (u ''2025-01-01 00:00:00.000000'')
        (u ''POST'') (u ''/v1/messages'') [] (Some [255, 254])
     = (example_proxy\<lparr>request_count := 1\<rparr>,
        request_heading (example_proxy\<lparr>request_count := 1\<rparr>) (u ''2025-01-01 00:00:00.000000'')
          (u ''POST'') (u ''/v1/messages'') []
        @ [[10] @ Fore_CYAN @ u ''Body (2 bytes):'', u ''  [Binary data: 2 bytes]'', []],
        None)"
    by (simp del: u_Cons)
  from undecodable_body [OF n(2) d(2), where self = example_proxy
      and now = "u ''2025-01-01 00:00:00.000000''" and status = 200 and headers = "[]"] e h
  show "print_response example_lib example_proxy (u ''2025-01-01 00:00:00.000000'') 200 []
        (Some (replicate 12 255))
     = (example_proxy,
        response_heading example_proxy (u ''2025-01-01 00:00:00.000000'') 200 []
        @ [[10] @ Fore_CYAN @ u ''Body (12 bytes):'', u ''  [Binary data: 12 bytes]'', []],
        None)"
    by (simp del: u_Cons)
qed

text \<open>
  C9 says that every body whose bytes decode to a text that does not parse as JSON is
  printed as that text, and that no error surfaces.  It is not so when \<open>json.loads\<close>
  ends with an exception other than \<open>JSONDecodeError\<close>: neither handler of
  \<open>print_request\<close> and \<open>print_response\<close> catches it.  On every standard output
  the call then ends with an exception, and where the heading is written it ends with
  the exception of \<open>json.loads\<close>, right after the heading of the body and with the
  text not printed.
\<close>

theorem loads_exception_escapes:
  assumes "b \<noteq> []" and "utf8_decode L b = Some body_text"
    and "json_loads L body_text = Raised err"
  shows "snd (snd (print_request L self now verb path headers (Some b)))
           \<in> {Some err, Some UnicodeEncodeError}
    \<and> (list_all (stdout_encodes L) (request_heading (self\<lparr>request_count := request_count self + 1\<rparr>) now verb path headers @ [body_heading b])
       \<longrightarrow> print_request L self now verb path headers (Some b)
           = (self\<lparr>request_count := request_count self + 1\<rparr>, request_heading (self\<lparr>request_count := request_count self + 1\<rparr>) now verb path headers @ [body_heading b], Some err))
    \<and> (\<not> startswith (u ''event: '') (strip body_text)
       \<longrightarrow> snd (snd (print_response L self now status headers (Some b)))
             \<in> {Some err, Some UnicodeEncodeError}
           \<and> (list_all (stdout_encodes L) (response_heading self now status headers @ [body_heading b])
              \<longrightarrow> print_response L self now status headers (Some b)
                  = (self, response_heading self now status headers @ [body_heading b], Some err)))"
proof (intro conjI impI)
  show "snd (snd (print_request L self now verb path headers (Some b)))
           \<in> {Some err, Some UnicodeEncodeError}"
    using assms
    by (auto simp: print_request_def Let_def then_do_def split: prod.splits option.splits
          dest: prints_raises simp del: u_Cons)
next
  assume "list_all (stdout_encodes L) (request_heading (self\<lparr>request_count := request_count self + 1\<rparr>) now verb path headers @ [body_heading b])"
  with assms show "print_request L self now verb path headers (Some b)
           = (self\<lparr>request_count := request_count self + 1\<rparr>, request_heading (self\<lparr>request_count := request_count self + 1\<rparr>) now verb path headers @ [body_heading b], Some err)"
    by (simp add: print_request_def Let_def prints_all del: u_Cons)
next
  assume "\<not> startswith (u ''event: '') (strip body_text)"
  with assms show "snd (snd (print_response L self now status headers (Some b)))
             \<in> {Some err, Some UnicodeEncodeError}"
    by (auto simp: print_response_def Let_def then_do_def split: prod.splits option.splits
          dest: prints_raises simp del: u_Cons)
next
  assume "\<not> startswith (u ''event: '') (strip body_text)"
    and "list_all (stdout_encodes L) (response_heading self now status headers @ [body_heading b])"
  with assms show "print_response L self now status headers (Some b)
                  = (self, response_heading self now status headers @ [body_heading b], Some err)"
    by (simp add: print_response_def Let_def prints_all del: u_Cons)
qed

lemma dropWhile_replicate_same: "\<not> P c \<Longrightarrow> dropWhile P (replicate n c) = replicate n c"
  by (cases n) simp_all

lemma strip_replicate: "\<not> isspace c \<Longrightarrow> strip (replicate n c) = replicate n c"
  by (simp add: strip_def dropWhile_replicate_same)

lemma not_event_replicate: "c \<noteq> 101 \<Longrightarrow> \<not> startswith (u ''event: '') (replicate n c)"
  by (cases n) (simp_all add: startswith_def)

lemma deep_brackets_facts:
  "deep_brackets \<noteq> []"
  "utf8_decode deep_brackets_lib deep_brackets = Some deep_brackets"
  "json_loads deep_brackets_lib deep_brackets = Raised RecursionError"
  "\<not> startswith (u ''event: '') (strip deep_brackets)"
  by (simp_all add: deep_brackets_def deep_brackets_lib_def example_lib_def ascii_def
        strip_replicate not_event_replicate isspace_def del: u_Cons)

lemma deep_brackets_heading:
  "body_heading deep_brackets = [10] @ Fore_CYAN @ u ''Body (100000 bytes):''"
  by (simp add: deep_brackets_def body_heading_def str_of_nat.simps)

text \<open>
  The request and the response whose body is the 100000 opening brackets of
  \<open>deep_brackets\<close>: both calls end with \<open>RecursionError\<close> after the heading
  \<open>Body (100000 bytes):\<close>.
\<close>

theorem loads_exception_escapes_witness:
  "deep_brackets \<noteq> []
   \<and> utf8_decode deep_brackets_lib deep_brackets = Some deep_brackets
   \<and> json_loads deep_brackets_lib deep_brackets = Raised RecursionError
   \<and> \<not> startswith (u ''event: '') (strip deep_brackets)
   \<and> print_request deep_brackets_lib example_proxy (u ''2025-01-01 00:00:00.000000'')
        (u ''POST'') (u ''/v1/messages'') [] (Some deep_brackets)
       = (example_proxy\<lparr>request_count := 1\<rparr>,
          request_heading (example_proxy\<lparr>request_count := 1\<rparr>) (u ''2025-01-01 00:00:00.000000'')
            (u ''POST'') (u ''/v1/messages'') []
          @ [[10] @ Fore_CYAN @ u ''Body (100000 bytes):''],
          Some RecursionError)
   \<and> print_response deep_brackets_lib example_proxy (u ''2025-01-01 00:00:00.000000'') 200 []
        (Some deep_brackets)
       = (example_proxy,
          response_heading example_proxy (u ''2025-01-01 00:00:00.000000'') 200 []
          @ [[10] @ Fore_CYAN @ u ''Body (100000 bytes):''],
          Some RecursionError)"
proof -
  have c: "request_count example_proxy + 1 = 1"
    by (simp add: example_proxy_def)
  have e: "stdout_encodes deep_brackets_lib s" "list_all (stdout_encodes deep_brackets_lib) ls"
    for s ls
    by (simp_all add: deep_brackets_lib_def example_lib_def list_all_iff)
  note t = loads_exception_escapes [OF deep_brackets_facts(1,2,3), where self = example_proxy
      and now = "u ''2025-01-01 00:00:00.000000''" and verb = "u ''POST''"
      and path = "u ''/v1/messages''" and headers = "[]" and status = 200]
  from t deep_brackets_facts deep_brackets_heading c e show ?thesis
    by (simp del: u_Cons)
qed

section \<open>How the collapser uses the cache\<close>

text \<open>
  The five ways a call of \<open>cache_and_replace\<close> can go, and the ways one round of
  its two loops can go.
\<close>

lemma extends_refl [simp]: "extends self self"
  by (simp add: extends_def)

lemma extends_trans: "extends a b \<Longrightarrow> extends b c \<Longrightarrow> extends a c"
proof -
  assume ab: "extends a b" and bc: "extends b c"
  from ab have b: "b = a\<lparr>json_cache := json_cache b\<rparr>" by (simp add: extends_def)
  from bc have c: "c = b\<lparr>json_cache := json_cache c\<rparr>" by (simp add: extends_def)
  have "c = a\<lparr>json_cache := json_cache c\<rparr>"
    by (subst c, subst b) simp
  moreover have "\<forall>k x. json_cache a k = Some x \<longrightarrow> json_cache c k = Some x"
    using ab bc by (simp add: extends_def)
  ultimately show ?thesis by (simp add: extends_def)
qed

lemma extends_remember: "json_cache self h = None \<Longrightarrow> extends self (remember self h p)"
  by (simp add: extends_def remember_def)

lemma cache_and_replace_off:
  "\<not> cache_json self \<Longrightarrow> cache_and_replace L self v path = (self, Inr v)"
  by (cases v) simp_all

lemma cache_and_replace_scalar:
  "\<not> is_composite v \<Longrightarrow> cache_and_replace L self v path = (self, Inr v)"
  by (cases v) simp_all

lemma cache_and_replace_hit:
  "cache_json self \<Longrightarrow> is_composite v \<Longrightarrow> json_cache self (fingerprint L v) = Some p
   \<Longrightarrow> cache_and_replace L self v path = (self, Inr (cached_marker p))"
  by (cases v) (simp_all add: compute_hash_total fingerprint_def del: dumps.simps)

lemma cache_and_replace_preview_error:
  "cache_json self \<Longrightarrow> is_composite v \<Longrightarrow> json_cache self (fingerprint L v) = None
   \<Longrightarrow> create_preview L v 60 = Inl e
   \<Longrightarrow> cache_and_replace L self v path = (self, Inl e)"
  by (cases v) (simp_all add: compute_hash_total fingerprint_def del: dumps.simps create_preview.simps)

lemma cache_and_replace_new_dict:
  "cache_json self \<Longrightarrow> json_cache self (fingerprint L (JDict kvs)) = None
   \<Longrightarrow> create_preview L (JDict kvs) 60 = Inr p
   \<Longrightarrow> cache_and_replace L self (JDict kvs) path =
       (case cache_items L (remember self (fingerprint L (JDict kvs)) p) kvs path of
          (self', Inl e) \<Rightarrow> (self', Inl e)
        | (self', Inr result) \<Rightarrow> (self', Inr (JDict result)))"
  by (simp add: compute_hash_total fingerprint_def remember_def del: dumps.simps create_preview.simps)

lemma cache_and_replace_new_list:
  "cache_json self \<Longrightarrow> json_cache self (fingerprint L (JList xs)) = None
   \<Longrightarrow> create_preview L (JList xs) 60 = Inr p
   \<Longrightarrow> cache_and_replace L self (JList xs) path =
       (case cache_elems L (remember self (fingerprint L (JList xs)) p) xs 0 path of
          (self', Inl e) \<Rightarrow> (self', Inl e)
        | (self', Inr result) \<Rightarrow> (self', Inr (JList result)))"
  by (simp add: compute_hash_total fingerprint_def remember_def del: dumps.simps create_preview.simps)

lemma cache_and_replace_cases [consumes 1, case_names off scalar hit preview_error new_dict new_list]:
  assumes "cache_and_replace L self v path = (self', res)"
  obtains
    (off) "\<not> cache_json self" "self' = self" "res = Inr v"
  | (scalar) "\<not> is_composite v" "self' = self" "res = Inr v"
  | (hit) p where "cache_json self" "is_composite v" "json_cache self (fingerprint L v) = Some p"
      "self' = self" "res = Inr (cached_marker p)"
  | (preview_error) e where "cache_json self" "is_composite v"
      "json_cache self (fingerprint L v) = None" "create_preview L v 60 = Inl e"
      "self' = self" "res = Inl e"
  | (new_dict) kvs p r where "v = JDict kvs" "cache_json self"
      "json_cache self (fingerprint L v) = None" "create_preview L v 60 = Inr p"
      "cache_items L (remember self (fingerprint L v) p) kvs path = (self', r)"
      "res = map_sum id JDict r"
  | (new_list) xs p r where "v = JList xs" "cache_json self"
      "json_cache self (fingerprint L v) = None" "create_preview L v 60 = Inr p"
      "cache_elems L (remember self (fingerprint L v) p) xs 0 path = (self', r)"
      "res = map_sum id JList r"
proof (cases "cache_json self")
  case False
  with assms have "self' = self" "res = Inr v"
    by (simp_all add: cache_and_replace_off)
  with False show ?thesis by (rule off)
next
  case on: True
  show ?thesis
  proof (cases "is_composite v")
    case False
    with assms have "self' = self" "res = Inr v"
      by (simp_all add: cache_and_replace_scalar)
    with False show ?thesis by (rule scalar)
  next
    case comp: True
    show ?thesis
    proof (cases "json_cache self (fingerprint L v)")
      case (Some p)
      with assms on comp have "self' = self" "res = Inr (cached_marker p)"
        by (simp_all add: cache_and_replace_hit)
      with on comp Some show ?thesis by (rule hit)
    next
      case None
      show ?thesis
      proof (cases "create_preview L v 60")
        case (Inl e)
        with assms on comp None have "self' = self" "res = Inl e"
          by (simp_all add: cache_and_replace_preview_error)
        with on comp None Inl show ?thesis by (rule preview_error)
      next
        case (Inr p)
        from comp show ?thesis
        proof (cases v)
          case (JDict kvs)
          obtain s r where c: "cache_items L (remember self (fingerprint L v) p) kvs path = (s, r)"
            by (cases "cache_items L (remember self (fingerprint L v) p) kvs path")
          with assms on None Inr JDict have "self' = s" "res = map_sum id JDict r"
            by (auto simp: cache_and_replace_new_dict split: sum.splits simp del: cache_and_replace.simps)
          with c show ?thesis by (intro new_dict [OF JDict on None Inr]) simp_all
        next
          case (JList xs)
          obtain s r where c: "cache_elems L (remember self (fingerprint L v) p) xs 0 path = (s, r)"
            by (cases "cache_elems L (remember self (fingerprint L v) p) xs 0 path")
          with assms on None Inr JList have "self' = s" "res = map_sum id JList r"
            by (auto simp: cache_and_replace_new_list split: sum.splits simp del: cache_and_replace.simps)
          with c show ?thesis by (intro new_list [OF JList on None Inr]) simp_all
        qed simp_all
      qed
    qed
  qed
qed

lemma cache_items_cases [consumes 1, case_names exempt child_error child_ok]:
  assumes "cache_items L self ((k, v) # kvs) path = (self', res)"
  obtains
    (exempt) r where "exempt path k" "cache_items L self kvs path = (self', r)"
      "res = map_sum id (Cons (k, v)) r"
  | (child_error) e where "\<not> exempt path k"
      "cache_and_replace L self v (child_path path k) = (self', Inl e)" "res = Inl e"
  | (child_ok) s1 val r where "\<not> exempt path k"
      "cache_and_replace L self v (child_path path k) = (s1, Inr val)"
      "cache_items L s1 kvs path = (self', r)" "res = map_sum id (Cons (k, val)) r"
proof (cases "exempt path k")
  case True
  obtain s r where c: "cache_items L self kvs path = (s, r)"
    by (cases "cache_items L self kvs path")
  with assms True have "self' = s" "res = map_sum id (Cons (k, v)) r"
    by (auto simp: exempt_def split: sum.splits)
  with c show ?thesis by (intro exempt [OF True]) simp_all
next
  case False
  obtain s1 r1 where c1: "cache_and_replace L self v (child_path path k) = (s1, r1)"
    by (cases "cache_and_replace L self v (child_path path k)")
  show ?thesis
  proof (cases r1)
    case (Inl e)
    with assms False c1 have "self' = s1" "res = Inl e"
      by (auto simp: exempt_def child_path_def split: if_splits)
    with c1 Inl show ?thesis by (intro child_error [OF False]) simp_all
  next
    case (Inr val)
    obtain s r where c: "cache_items L s1 kvs path = (s, r)"
      by (cases "cache_items L s1 kvs path")
    with assms False c1 Inr have "self' = s" "res = map_sum id (Cons (k, val)) r"
      by (auto simp: exempt_def child_path_def split: sum.splits if_splits)
    with c1 Inr c show ?thesis by (intro child_ok [OF False]) simp_all
  qed
qed

lemma cache_elems_cases [consumes 1, case_names elem_error elem_ok]:
  assumes "cache_elems L self (x # xs) i path = (self', res)"
  obtains
    (elem_error) e where "cache_and_replace L self x (elem_path path i) = (self', Inl e)" "res = Inl e"
  | (elem_ok) s1 val r where "cache_and_replace L self x (elem_path path i) = (s1, Inr val)"
      "cache_elems L s1 xs (Suc i) path = (self', r)" "res = map_sum id (Cons val) r"
proof -
  obtain s1 r1 where c1: "cache_and_replace L self x (elem_path path i) = (s1, r1)"
    by (cases "cache_and_replace L self x (elem_path path i)")
  show ?thesis
  proof (cases r1)
    case (Inl e)
    with assms c1 have "self' = s1" "res = Inl e"
      by (auto simp: elem_path_def)
    with c1 Inl show ?thesis by (intro elem_error) simp_all
  next
    case (Inr val)
    obtain s r where c: "cache_elems L s1 xs (Suc i) path = (s, r)"
      by (cases "cache_elems L s1 xs (Suc i) path")
    with assms c1 Inr have "self' = s" "res = map_sum id (Cons val) r"
      by (auto simp: elem_path_def split: sum.splits)
    with c1 Inr c show ?thesis by (intro elem_ok) simp_all
  qed
qed

text \<open>Only the cache changes, and it only grows.\<close>

declare create_preview.simps [simp del] dumps.simps [simp del] cache_and_replace.simps [simp del]

lemma extends_cache_json: "extends self self' \<Longrightarrow> cache_json self' = cache_json self"
  by (metis (full_types) ProxyServer.select_convs(6) ProxyServer.surjective ProxyServer.update_convs(8) extends_def)

lemma extends_keeps: "extends self self' \<Longrightarrow> json_cache self k = Some x \<Longrightarrow> json_cache self' k = Some x"
  by (simp add: extends_def)

lemma cache_elems_extends_aux:
  assumes IH: "\<And>x self path self' res. x \<in> set xs \<Longrightarrow>
      cache_and_replace L self x path = (self', res) \<Longrightarrow> extends self self'"
  shows "cache_elems L self xs i path = (self', res) \<Longrightarrow> extends self self'"
  using IH
proof (induction xs arbitrary: self i self' res)
  case Nil
  then show ?case by simp
next
  case (Cons x xs)
  from Cons.prems(1) show ?case
  proof (cases rule: cache_elems_cases)
    case (elem_error e)
    from elem_error(1) show ?thesis
      by (rule Cons.prems(2) [rotated]) simp
  next
    case (elem_ok s1 val r)
    have "extends self s1"
      using elem_ok(1) by (rule Cons.prems(2) [rotated]) simp
    moreover have "extends s1 self'"
      using elem_ok(2) by (rule Cons.IH) (rule Cons.prems(2), simp_all)
    ultimately show ?thesis by (rule extends_trans)
  qed
qed

lemma cache_items_extends_aux:
  assumes IH: "\<And>kv self path self' res. kv \<in> set kvs \<Longrightarrow>
      cache_and_replace L self (snd kv) path = (self', res) \<Longrightarrow> extends self self'"
  shows "cache_items L self kvs path = (self', res) \<Longrightarrow> extends self self'"
  using IH
proof (induction kvs arbitrary: self self' res)
  case Nil
  then show ?case by simp
next
  case (Cons kv kvs)
  obtain k v where kv: "kv = (k, v)" by (cases kv)
  from Cons.prems(1) [unfolded kv] show ?case
  proof (cases rule: cache_items_cases)
    case (exempt r)
    from exempt(2) show ?thesis
      by (rule Cons.IH) (rule Cons.prems(2), simp_all)
  next
    case (child_error e)
    have "cache_and_replace L self (snd kv) (child_path path k) = (self', Inl e)"
      using child_error(2) kv by simp
    then show ?thesis
      by (rule Cons.prems(2) [rotated]) simp
  next
    case (child_ok s1 val r)
    have "cache_and_replace L self (snd kv) (child_path path k) = (s1, Inr val)"
      using child_ok(2) kv by simp
    then have "extends self s1"
      by (rule Cons.prems(2) [rotated]) simp
    moreover have "extends s1 self'"
      using child_ok(3) by (rule Cons.IH) (rule Cons.prems(2), simp_all)
    ultimately show ?thesis by (rule extends_trans)
  qed
qed

lemma cache_and_replace_extends:
  "cache_and_replace L self v path = (self', res) \<Longrightarrow> extends self self'"
proof (induction v arbitrary: self path self' res)
  case (JList xs)
  from JList.prems show ?case
  proof (cases rule: cache_and_replace_cases)
    case (new_list ys p r)
    from new_list(1) have ys: "ys = xs" by simp
    have c: "cache_elems L (remember self (fingerprint L (JList xs)) p) xs 0 path = (self', r)"
      using new_list(5) ys by simp
    have "extends (remember self (fingerprint L (JList xs)) p) self'"
      by (rule cache_elems_extends_aux [OF JList.IH c])
    moreover have "extends self (remember self (fingerprint L (JList xs)) p)"
      using new_list by (intro extends_remember) simp
    ultimately show ?thesis by (rule extends_trans [rotated])
  qed simp_all
next
  case (JDict kvs)
  from JDict.prems show ?case
  proof (cases rule: cache_and_replace_cases)
    case (new_dict kvs' p r)
    have "\<And>kv self path self' res. kv \<in> set kvs \<Longrightarrow>
      cache_and_replace L self (snd kv) path = (self', res) \<Longrightarrow> extends self self'"
    proof -
      fix kv self path self' res
      assume "kv \<in> set kvs" and c: "cache_and_replace L self (snd kv) path = (self', res)"
      moreover have "snd kv \<in> Basic_BNFs.snds kv"
        by (cases kv) (simp add: snds.simps)
      ultimately show "extends self self'"
        using JDict.IH by blast
    qed
    note IH = this
    from new_dict(1) have kvs': "kvs' = kvs" by simp
    have c: "cache_items L (remember self (fingerprint L (JDict kvs)) p) kvs path = (self', r)"
      using new_dict(5) kvs' by simp
    have "extends (remember self (fingerprint L (JDict kvs)) p) self'"
      by (rule cache_items_extends_aux [OF IH c])
    moreover have "extends self (remember self (fingerprint L (JDict kvs)) p)"
      using new_dict by (intro extends_remember) simp
    ultimately show ?thesis by (rule extends_trans [rotated])
  qed simp_all
qed (auto simp: cache_and_replace_scalar)

lemma cache_items_extends:
  "cache_items L self kvs path = (self', res) \<Longrightarrow> extends self self'"
  by (rule cache_items_extends_aux) (rule cache_and_replace_extends)

lemma cache_elems_extends:
  "cache_elems L self xs i path = (self', res) \<Longrightarrow> extends self self'"
  by (rule cache_elems_extends_aux) (rule cache_and_replace_extends)

lemma cache_items_Cons_exempt:
  "exempt path k \<Longrightarrow>
   cache_items L self ((k, v) # kvs) path =
     (case cache_items L self kvs path of (s, r) \<Rightarrow> (s, map_sum id (Cons (k, v)) r))"
  by (auto simp: exempt_def split: prod.splits sum.splits)

lemma cache_items_Cons_child:
  "\<not> exempt path k \<Longrightarrow>
   cache_items L self ((k, v) # kvs) path =
     (case cache_and_replace L self v (child_path path k) of
        (s1, Inl e) \<Rightarrow> (s1, Inl e)
      | (s1, Inr val) \<Rightarrow>
          (case cache_items L s1 kvs path of (s, r) \<Rightarrow> (s, map_sum id (Cons (k, val)) r)))"
  by (auto simp: exempt_def child_path_def split: prod.splits sum.splits)

lemma cache_items_keys:
  "cache_items L self kvs path = (self', Inr r) \<Longrightarrow>
   list_all2 (\<lambda>kv kv'. fst kv' = fst kv \<and> (exempt path (fst kv) \<longrightarrow> snd kv' = snd kv)) kvs r"
proof (induction kvs arbitrary: self r)
  case Nil
  then show ?case by simp
next
  case (Cons kv kvs)
  obtain k v where kv: "kv = (k, v)" by (cases kv)
  from Cons.prems [unfolded kv] show ?case
  proof (cases rule: cache_items_cases)
    case (exempt r')
    then obtain r'' where "r' = Inr r''" "r = (k, v) # r''"
      by (cases r') auto
    with exempt Cons.IH kv show ?thesis by auto
  next
    case (child_error e)
    then show ?thesis by simp
  next
    case (child_ok s1 val r')
    then obtain r'' where "r' = Inr r''" "r = (k, val) # r''"
      by (cases r') auto
    with child_ok Cons.IH kv show ?thesis by auto
  qed
qed

lemma cache_items_map_fst:
  "cache_items L self kvs path = (self', Inr r) \<Longrightarrow> map fst r = map fst kvs"
  by (drule cache_items_keys) (induction kvs r rule: list_induct2', auto)

lemma cache_elems_length:
  "cache_elems L self xs i path = (self', Inr r) \<Longrightarrow> length r = length xs"
proof (induction xs arbitrary: self i r)
  case Nil
  then show ?case by simp
next
  case (Cons x xs)
  from Cons.prems show ?case
  proof (cases rule: cache_elems_cases)
    case (elem_error e)
    then show ?thesis by simp
  next
    case (elem_ok s1 val r')
    then obtain r'' where "r' = Inr r''" "r = val # r''"
      by (cases r') auto
    with elem_ok Cons.IH show ?thesis by auto
  qed
qed

lemma cache_items_without_exempt:
  "cache_items L self kvs path = (self', res) \<Longrightarrow>
   cache_items L self (filter (\<lambda>kv. \<not> exempt path (fst kv)) kvs) path
     = (self', map_sum id (filter (\<lambda>kv. \<not> exempt path (fst kv))) res)"
proof (induction kvs arbitrary: self res)
  case Nil
  then show ?case by auto
next
  case (Cons kv kvs)
  obtain k v where kv: "kv = (k, v)" by (cases kv)
  from Cons.prems [unfolded kv] show ?case
  proof (cases rule: cache_items_cases)
    case (exempt r)
    with Cons.IH [OF exempt(2)] kv show ?thesis
      by (cases r) simp_all
  next
    case (child_error e)
    with kv show ?thesis
      by (simp add: cache_items_Cons_child del: cache_items.simps)
  next
    case (child_ok s1 val r)
    with Cons.IH [OF child_ok(3)] kv show ?thesis
      by (cases r) (simp_all add: cache_items_Cons_child del: cache_items.simps)
  qed
qed

lemma same_json_composite: "same_json v w \<Longrightarrow> is_composite w = is_composite v"
  by (cases rule: same_json.cases) auto

lemma same_json_fingerprint: "same_json v w \<Longrightarrow> fingerprint L w = fingerprint L v"
  by (simp add: fingerprint_def same_json_dumps)

lemma cache_and_replace_new:
  assumes "cache_json self" and "is_composite v" and "json_cache self (fingerprint L v) = None"
    and "cache_and_replace L self v path = (self', Inr r)"
  obtains p where "create_preview L v 60 = Inr p" and "json_cache self' (fingerprint L v) = Some p"
    and "(\<exists>kvs kvs'. v = JDict kvs \<and> r = JDict kvs'
            \<and> cache_items L (remember self (fingerprint L v) p) kvs path = (self', Inr kvs'))
         \<or> (\<exists>xs xs'. v = JList xs \<and> r = JList xs'
            \<and> cache_elems L (remember self (fingerprint L v) p) xs 0 path = (self', Inr xs'))"
  using assms(4)
proof (cases rule: cache_and_replace_cases)
  case (new_dict kvs p r')
  from new_dict(6) obtain kvs' where r': "r' = Inr kvs'" "r = JDict kvs'"
    by (cases r') auto
  have "extends (remember self (fingerprint L v) p) self'"
    using new_dict(5) by (rule cache_items_extends)
  then have "json_cache self' (fingerprint L v) = Some p"
    by (rule extends_keeps) (simp add: remember_def)
  with new_dict r' that show ?thesis by blast
next
  case (new_list xs p r')
  from new_list(6) obtain xs' where r': "r' = Inr xs'" "r = JList xs'"
    by (cases r') auto
  have "extends (remember self (fingerprint L v) p) self'"
    using new_list(5) by (rule cache_elems_extends)
  then have "json_cache self' (fingerprint L v) = Some p"
    by (rule extends_keeps) (simp add: remember_def)
  with new_list r' that show ?thesis by blast
qed (use assms in simp_all)

text \<open>
  A value met twice.  With caching on, let \<open>v\<close> be a composite value whose
  fingerprint is not in the cache, and let collapsing \<open>v\<close> return normally.  Then
  \<open>v\<close> has a preview, which is now the cache entry of its fingerprint (the value was
  new); the result is a composite of the same kind, a mapping with the same keys in the
  same order or a list of the same length, built by the loop that collapses the
  children; and collapsing right afterwards \<open>v\<close> again, or any value that is the same
  up to insertion order, under any path, returns the marker with exactly that preview
  and leaves the proxy, its cache included, as it was.
\<close>

lemma collapse_twice:
  assumes "cache_json self" and "is_composite v" and "json_cache self (fingerprint L v) = None"
    and "cache_and_replace L self v path = (self1, Inr r)"
  shows "\<exists>p. create_preview L v 60 = Inr p
     \<and> json_cache self1 (fingerprint L v) = Some p
     \<and> ((\<exists>kvs kvs'. v = JDict kvs \<and> r = JDict kvs' \<and> map fst kvs' = map fst kvs
            \<and> cache_items L (remember self (fingerprint L v) p) kvs path = (self1, Inr kvs'))
         \<or> (\<exists>xs xs'. v = JList xs \<and> r = JList xs' \<and> length xs' = length xs
            \<and> cache_elems L (remember self (fingerprint L v) p) xs 0 path = (self1, Inr xs')))
     \<and> (\<forall>w path'. w = v \<or> same_json v w \<longrightarrow>
           cache_and_replace L self1 w path' = (self1, Inr (cached_marker p)))"
proof -
  from assms obtain p where p: "create_preview L v 60 = Inr p"
    and c: "json_cache self1 (fingerprint L v) = Some p"
    and k: "(\<exists>kvs kvs'. v = JDict kvs \<and> r = JDict kvs'
            \<and> cache_items L (remember self (fingerprint L v) p) kvs path = (self1, Inr kvs'))
         \<or> (\<exists>xs xs'. v = JList xs \<and> r = JList xs'
            \<and> cache_elems L (remember self (fingerprint L v) p) xs 0 path = (self1, Inr xs'))"
    by (rule cache_and_replace_new)
  have on: "cache_json self1"
    using assms(1,4) by (simp add: extends_cache_json [OF cache_and_replace_extends])
  have again: "cache_and_replace L self1 w path' = (self1, Inr (cached_marker p))"
    if "w = v \<or> same_json v w" for w path'
  proof -
    from that have "is_composite w" and "fingerprint L w = fingerprint L v"
      using assms(2) by (auto simp: same_json_composite same_json_fingerprint)
    with on c show ?thesis by (simp add: cache_and_replace_hit)
  qed
  from k have "(\<exists>kvs kvs'. v = JDict kvs \<and> r = JDict kvs' \<and> map fst kvs' = map fst kvs
            \<and> cache_items L (remember self (fingerprint L v) p) kvs path = (self1, Inr kvs'))
         \<or> (\<exists>xs xs'. v = JList xs \<and> r = JList xs' \<and> length xs' = length xs
            \<and> cache_elems L (remember self (fingerprint L v) p) xs 0 path = (self1, Inr xs'))"
    by (auto dest: cache_items_map_fst cache_elems_length)
  with p c again show ?thesis by blast
qed

text \<open>
  C6, as amended.  With caching on, let the body be a mapping whose own fingerprint is
  not in the cache, and let collapsing it return normally.  Then the result is a mapping
  with the same keys in the same order in which the value of every exempt key
  (\<open>"model"\<close>, \<open>"max_tokens"\<close>, \<open>"stream"\<close>) is the original value, and the proxy
  afterwards is the one the loop over the other entries alone ends with: the exempt
  values were neither fingerprinted, nor cached, nor entered, whatever they are and
  whatever the cache held.
\<close>

theorem exempt_keys_bypass:
  assumes "cache_json self" and "json_cache self (fingerprint L (JDict kvs)) = None"
    and "cache_and_replace L self (JDict kvs) [] = (self', Inr r)"
  shows "\<exists>p kvs'. r = JDict kvs' \<and> create_preview L (JDict kvs) 60 = Inr p
     \<and> list_all2 (\<lambda>kv kv'. fst kv' = fst kv \<and> (fst kv \<in> set exempt_keys \<longrightarrow> snd kv' = snd kv))
          kvs kvs'
     \<and> cache_items L (remember self (fingerprint L (JDict kvs)) p)
          (filter (\<lambda>kv. fst kv \<notin> set exempt_keys) kvs) []
        = (self', Inr (filter (\<lambda>kv. fst kv \<notin> set exempt_keys) kvs'))"
proof -
  have comp: "is_composite (JDict kvs)" by simp
  from assms(1) comp assms(2,3) obtain p where p: "create_preview L (JDict kvs) 60 = Inr p"
    and "json_cache self' (fingerprint L (JDict kvs)) = Some p"
    and k: "(\<exists>kvs0 kvs'. JDict kvs = JDict kvs0 \<and> r = JDict kvs'
            \<and> cache_items L (remember self (fingerprint L (JDict kvs)) p) kvs0 [] = (self', Inr kvs'))
         \<or> (\<exists>xs xs'. JDict kvs = JList xs \<and> r = JList xs'
            \<and> cache_elems L (remember self (fingerprint L (JDict kvs)) p) xs 0 [] = (self', Inr xs'))"
    by (rule cache_and_replace_new)
  then obtain kvs' where r: "r = JDict kvs'"
    and c: "cache_items L (remember self (fingerprint L (JDict kvs)) p) kvs [] = (self', Inr kvs')"
    by auto
  from cache_items_keys [OF c]
  have "list_all2 (\<lambda>kv kv'. fst kv' = fst kv \<and> (fst kv \<in> set exempt_keys \<longrightarrow> snd kv' = snd kv))
          kvs kvs'"
    by (simp add: exempt_def)
  moreover from cache_items_without_exempt [OF c]
  have "cache_items L (remember self (fingerprint L (JDict kvs)) p)
          (filter (\<lambda>kv. fst kv \<notin> set exempt_keys) kvs) []
        = (self', Inr (filter (\<lambda>kv. fst kv \<notin> set exempt_keys) kvs'))"
    by (simp add: exempt_def)
  ultimately show ?thesis using r p by blast
qed







section \<open>Values seen for the first time\<close>

text \<open>
  When the collapse returns normally and no fingerprint of a composite part of the value
  is in the cache or shared with another part, the value comes back as it is: no part is
  replaced, no key is moved or dropped.
\<close>

lemma fresh_for_append:
  "fresh_for L self (as @ bs) \<Longrightarrow> fresh_for L self as"
  "fresh_for L self (as @ bs) \<Longrightarrow> fresh_for L self bs"
  by (auto simp: fresh_for_def)

lemma fresh_for_step:
  assumes "fresh_for L self (as @ bs)" and "grows_by L self s1 as"
  shows "fresh_for L s1 bs"
  unfolding fresh_for_def
proof (intro conjI ballI)
  show "distinct (map (fingerprint L) bs)"
    using assms(1) by (simp add: fresh_for_def)
  fix c assume c: "c \<in> set bs"
  show "json_cache s1 (fingerprint L c) = None"
  proof (rule ccontr)
    assume "json_cache s1 (fingerprint L c) \<noteq> None"
    with assms(2) have "json_cache self (fingerprint L c) \<noteq> None \<or> fingerprint L c \<in> fingerprint L ` set as"
      by (simp add: grows_by_def)
    moreover have "json_cache self (fingerprint L c) = None"
      using assms(1) c by (simp add: fresh_for_def)
    moreover have "fingerprint L c \<notin> fingerprint L ` set as"
      using assms(1) c by (auto simp: fresh_for_def)
    ultimately show False by simp
  qed
qed

lemma grows_by_trans:
  "grows_by L self s1 as \<Longrightarrow> grows_by L s1 self' bs \<Longrightarrow> grows_by L self self' (as @ bs)"
  by (fastforce simp: grows_by_def)

lemma grows_by_refl: "grows_by L self self cs"
  by (simp add: grows_by_def)

lemma grows_by_mono: "grows_by L self self' bs \<Longrightarrow> set bs \<subseteq> set cs \<Longrightarrow> grows_by L self self' cs"
  by (fastforce simp: grows_by_def)

lemma first_seen_items_aux:
  assumes IH: "\<And>kv self path self' r. kv \<in> set kvs \<Longrightarrow>
      cache_and_replace L self (snd kv) path = (self', Inr r) \<Longrightarrow>
      fresh_for L self (composites (snd kv)) \<Longrightarrow>
      r = snd kv \<and> grows_by L self self' (composites (snd kv))"
  shows "cache_items L self kvs path = (self', Inr r) \<Longrightarrow> fresh_for L self (composites_items kvs)
    \<Longrightarrow> r = kvs \<and> grows_by L self self' (composites_items kvs)"
  using IH
proof (induction kvs arbitrary: self r)
  case Nil
  then show ?case by (simp add: grows_by_refl)
next
  case (Cons kv kvs)
  obtain k v where kv: "kv = (k, v)" by (cases kv)
  have fa: "fresh_for L self (composites v @ composites_items kvs)"
    using Cons.prems(2) kv by simp
  have fv: "fresh_for L self (composites v)"
    using fa by (rule fresh_for_append(1))
  have fr: "fresh_for L self (composites_items kvs)"
    using fa by (rule fresh_for_append(2))
  have IH': "\<And>kv self path self' r. kv \<in> set kvs \<Longrightarrow>
      cache_and_replace L self (snd kv) path = (self', Inr r) \<Longrightarrow>
      fresh_for L self (composites (snd kv)) \<Longrightarrow>
      r = snd kv \<and> grows_by L self self' (composites (snd kv))"
    by (rule Cons.prems(3)) simp_all
  from Cons.prems(1) [unfolded kv] show ?case
  proof (cases rule: cache_items_cases)
    case (exempt r')
    then obtain r'' where r': "r' = Inr r''" "r = (k, v) # r''"
      by (cases r') auto
    from Cons.IH [OF exempt(2) [unfolded r'(1)] fr IH']
    have "r'' = kvs" and g: "grows_by L self self' (composites_items kvs)" by simp_all
    moreover have "grows_by L self self' (composites v @ composites_items kvs)"
      by (rule grows_by_mono [OF g]) simp
    ultimately show ?thesis using r' kv by simp
  next
    case (child_error e)
    then show ?thesis by simp
  next
    case (child_ok s1 val r')
    then obtain r'' where r': "r' = Inr r''" "r = (k, val) # r''"
      by (cases r') auto
    have c1: "cache_and_replace L self (snd kv) (child_path path k) = (s1, Inr val)"
      using child_ok(2) kv by simp
    have m1: "kv \<in> set (kv # kvs)" by simp
    have f1: "fresh_for L self (composites (snd kv))" using fv kv by simp
    have "val = snd kv \<and> grows_by L self s1 (composites (snd kv))"
      using m1 c1 f1 by (rule Cons.prems(3))
    then have val: "val = v" and g1: "grows_by L self s1 (composites v)"
      using kv by simp_all
    have "fresh_for L s1 (composites_items kvs)"
      using fa g1 by (rule fresh_for_step)
    from Cons.IH [OF child_ok(3) [unfolded r'(1)] this IH']
    have "r'' = kvs" and g2: "grows_by L s1 self' (composites_items kvs)" by simp_all
    with val r' kv grows_by_trans [OF g1 g2] show ?thesis by simp
  qed
qed

lemma first_seen_elems_aux:
  assumes IH: "\<And>x self path self' r. x \<in> set xs \<Longrightarrow>
      cache_and_replace L self x path = (self', Inr r) \<Longrightarrow>
      fresh_for L self (composites x) \<Longrightarrow>
      r = x \<and> grows_by L self self' (composites x)"
  shows "cache_elems L self xs i path = (self', Inr r) \<Longrightarrow> fresh_for L self (composites_list xs)
    \<Longrightarrow> r = xs \<and> grows_by L self self' (composites_list xs)"
  using IH
proof (induction xs arbitrary: self i r)
  case Nil
  then show ?case by (simp add: grows_by_refl)
next
  case (Cons x xs)
  have fa: "fresh_for L self (composites x @ composites_list xs)"
    using Cons.prems(2) by simp
  have fv: "fresh_for L self (composites x)"
    using fa by (rule fresh_for_append(1))
  have IH': "\<And>x self path self' r. x \<in> set xs \<Longrightarrow>
      cache_and_replace L self x path = (self', Inr r) \<Longrightarrow>
      fresh_for L self (composites x) \<Longrightarrow>
      r = x \<and> grows_by L self self' (composites x)"
    by (rule Cons.prems(3)) simp_all
  from Cons.prems(1) show ?case
  proof (cases rule: cache_elems_cases)
    case (elem_error e)
    then show ?thesis by simp
  next
    case (elem_ok s1 val r')
    then obtain r'' where r': "r' = Inr r''" "r = val # r''"
      by (cases r') auto
    have "x \<in> set (x # xs)" by simp
    from Cons.prems(3) [OF this elem_ok(1) fv]
    have val: "val = x" and g1: "grows_by L self s1 (composites x)" by simp_all
    have "fresh_for L s1 (composites_list xs)"
      using fa g1 by (rule fresh_for_step)
    from Cons.IH [OF elem_ok(2) [unfolded r'(1)] this IH']
    have "r'' = xs" and g2: "grows_by L s1 self' (composites_list xs)" by simp_all
    with val r' grows_by_trans [OF g1 g2] show ?thesis by simp
  qed
qed

lemma fresh_for_remember:
  assumes "fresh_for L self (v # cs)"
  shows "fresh_for L (remember self (fingerprint L v) p) cs"
proof -
  from assms have d: "distinct (map (fingerprint L) cs)"
    and n: "fingerprint L v \<notin> fingerprint L ` set cs"
    and e: "\<forall>c\<in>set cs. json_cache self (fingerprint L c) = None"
    by (simp_all add: fresh_for_def)
  have "json_cache (remember self (fingerprint L v) p) (fingerprint L c) = None" if "c \<in> set cs" for c
  proof -
    from that n have "fingerprint L c \<noteq> fingerprint L v" by (metis imageI)
    with that e show ?thesis by (simp add: remember_def)
  qed
  with d show ?thesis by (simp add: fresh_for_def)
qed

lemma grows_by_remember:
  "grows_by L (remember self (fingerprint L v) p) self' cs \<Longrightarrow> grows_by L self self' (v # cs)"
  by (auto simp: grows_by_def remember_def split: if_splits)

lemma first_seen_unchanged:
  "cache_and_replace L self v path = (self', Inr r) \<Longrightarrow> fresh_for L self (composites v)
   \<Longrightarrow> r = v \<and> grows_by L self self' (composites v)"
proof (induction v arbitrary: self path self' r)
  case (JList xs)
  from JList.prems(1) show ?case
  proof (cases rule: cache_and_replace_cases)
    case (hit p)
    with JList.prems(2) show ?thesis by (simp add: fresh_for_def)
  next
    case (new_list ys p r')
    from new_list(1) have ys: "ys = xs" by simp
    from new_list(6) obtain xs' where r': "r' = Inr xs'" "r = JList xs'"
      by (cases r') auto
    have c: "cache_elems L (remember self (fingerprint L (JList xs)) p) xs 0 path = (self', Inr xs')"
      using new_list(5) ys r' by simp
    have f: "fresh_for L (remember self (fingerprint L (JList xs)) p) (composites_list xs)"
      using JList.prems(2) by (simp add: fresh_for_remember)
    from first_seen_elems_aux [OF JList.IH c f]
    have "xs' = xs" and "grows_by L (remember self (fingerprint L (JList xs)) p) self' (composites_list xs)"
      by simp_all
    with r' show ?thesis by (simp add: grows_by_remember)
  qed (simp_all add: grows_by_refl)
next
  case (JDict kvs)
  have IH: "\<And>kv self path self' r. kv \<in> set kvs \<Longrightarrow>
      cache_and_replace L self (snd kv) path = (self', Inr r) \<Longrightarrow>
      fresh_for L self (composites (snd kv)) \<Longrightarrow>
      r = snd kv \<and> grows_by L self self' (composites (snd kv))"
  proof -
    fix kv self path self' r
    assume "kv \<in> set kvs" and "cache_and_replace L self (snd kv) path = (self', Inr r)"
      and "fresh_for L self (composites (snd kv))"
    moreover have "snd kv \<in> Basic_BNFs.snds kv"
      by (cases kv) (simp add: snds.simps)
    ultimately show "r = snd kv \<and> grows_by L self self' (composites (snd kv))"
      using JDict.IH by blast
  qed
  from JDict.prems(1) show ?case
  proof (cases rule: cache_and_replace_cases)
    case (hit p)
    with JDict.prems(2) show ?thesis by (simp add: fresh_for_def)
  next
    case (new_dict kvs0 p r')
    from new_dict(1) have kvs0: "kvs0 = kvs" by simp
    from new_dict(6) obtain kvs' where r': "r' = Inr kvs'" "r = JDict kvs'"
      by (cases r') auto
    have c: "cache_items L (remember self (fingerprint L (JDict kvs)) p) kvs path = (self', Inr kvs')"
      using new_dict(5) kvs0 r' by simp
    have f: "fresh_for L (remember self (fingerprint L (JDict kvs)) p) (composites_items kvs)"
      using JDict.prems(2) by (simp add: fresh_for_remember)
    from first_seen_items_aux [OF IH c f]
    have "kvs' = kvs" and "grows_by L (remember self (fingerprint L (JDict kvs)) p) self' (composites_items kvs)"
      by simp_all
    with r' show ?thesis by (simp add: grows_by_remember)
  qed (simp_all add: grows_by_refl)
qed (simp_all add: cache_and_replace_scalar grows_by_refl)

text \<open>
  In particular from the empty cache, for a value no two composite parts of which are
  equal, when the digest does not collide on these parts.
\<close>

lemma collapse_first_seen:
  assumes "json_cache self = Map.empty"
    and "distinct (composites v)" and "inj_on (fingerprint L) (set (composites v))"
    and "cache_and_replace L self v path = (self', Inr r)"
  shows "r = v"
proof -
  have "fresh_for L self (composites v)"
    using assms(1,2,3) by (simp add: fresh_for_def distinct_map)
  with assms(4) show ?thesis by (simp add: first_seen_unchanged)
qed

section \<open>The collapser on examples\<close>

text \<open>The equations that evaluate a collapse under the example library.\<close>

lemmas collapse_eval =
  cache_and_replace.simps compute_hash_total dumps.simps create_preview.simps fingerprint_def
  remember_def example_lib_def example_proxy_def encode_basestring_ascii_def escape_char_def
  str_of_int_def str_of_nat_digit cached_marker_def exempt_keys_def

text \<open>
  A value met twice, on an example: the mapping \<open>{"b": [], "a": 1}\<close> meets an empty
  cache and comes back unchanged, with its preview and that of \<open>[]\<close> in the cache;
  then \<open>{"a": 1, "b": []}\<close>, the same mapping in another order, comes back as the
  marker with the preview of the first, \<open>dict with keys: b, a\<close>, and the proxy stays
  as it was.
\<close>

lemma collapse_twice_example:
  "cache_json example_proxy
   \<and> is_composite (JDict [(u ''b'', JList []), (u ''a'', JInt 1)])
   \<and> json_cache example_proxy
        (fingerprint example_lib (JDict [(u ''b'', JList []), (u ''a'', JInt 1)])) = None
   \<and> cache_and_replace example_lib example_proxy (JDict [(u ''b'', JList []), (u ''a'', JInt 1)]) []
       = (remember
            (remember example_proxy
               (fingerprint example_lib (JDict [(u ''b'', JList []), (u ''a'', JInt 1)]))
               (u ''dict with keys: b, a''))
            (fingerprint example_lib (JList [])) (u ''array with 0 items''),
          Inr (JDict [(u ''b'', JList []), (u ''a'', JInt 1)]))
   \<and> same_json (JDict [(u ''b'', JList []), (u ''a'', JInt 1)])
                 (JDict [(u ''a'', JInt 1), (u ''b'', JList [])])
   \<and> cache_and_replace example_lib
        (remember
            (remember example_proxy
               (fingerprint example_lib (JDict [(u ''b'', JList []), (u ''a'', JInt 1)]))
               (u ''dict with keys: b, a''))
            (fingerprint example_lib (JList [])) (u ''array with 0 items''))
        (JDict [(u ''a'', JInt 1), (u ''b'', JList [])]) (u ''again'')
       = (remember
            (remember example_proxy
               (fingerprint example_lib (JDict [(u ''b'', JList []), (u ''a'', JInt 1)]))
               (u ''dict with keys: b, a''))
            (fingerprint example_lib (JList [])) (u ''array with 0 items''),
          Inr (cached_marker (u ''dict with keys: b, a'')))"
proof -
  let ?v = "JDict [(u ''b'', JList []), (u ''a'', JInt 1)]"
  let ?w = "JDict [(u ''a'', JInt 1), (u ''b'', JList [])]"
  let ?s1 = "remember (remember example_proxy (fingerprint example_lib ?v) (u ''dict with keys: b, a''))
            (fingerprint example_lib (JList [])) (u ''array with 0 items'')"
  have on: "cache_json example_proxy"
    by (simp add: example_proxy_def)
  have comp: "is_composite ?v"
    by simp
  have new: "json_cache example_proxy (fingerprint example_lib ?v) = None"
    by (simp add: example_proxy_def)
  have first: "cache_and_replace example_lib example_proxy ?v [] = (?s1, Inr ?v)"
    by (simp add: collapse_eval)
  have same: "same_json ?v ?w"
    by (rule same_dict [where zs = "[(u ''b'', JList []), (u ''a'', JInt 1)]"])
       (simp_all add: same_json.intros)
  have prev: "create_preview example_lib ?v 60 = Inr (u ''dict with keys: b, a'')"
    by (simp add: create_preview.simps)
  from collapse_twice [OF on comp new first] prev same
  have "cache_and_replace example_lib ?s1 ?w (u ''again'')
        = (?s1, Inr (cached_marker (u ''dict with keys: b, a'')))"
    by auto
  with on comp new first same show ?thesis
    by (simp only: simp_thms)
qed

text \<open>
  C3 says that collapsing a composite value whose fingerprint is not in the cache
  reports the value as new and returns a composite of the same kind, and that collapsing
  the same value again right away returns the marker with the preview of the first.  It
  does not for the mapping \<open>{"type": "text", "text": false}\<close>: with caching on and
  an empty cache the collapse ends with \<open>TypeError\<close>, raised by
  \<open>create_preview\<close> (\<open>len\<close> of a \<open>bool\<close>) before anything is entered in the
  cache, so that no composite comes back and the value is not recorded; and collapsing
  the mapping a second time ends in the same way, not with a marker.
\<close>

theorem new_value_without_preview:
  "cache_json example_proxy
   \<and> is_composite (JDict [(u ''type'', JStr (u ''text'')), (u ''text'', JBool False)])
   \<and> json_cache example_proxy
        (fingerprint L (JDict [(u ''type'', JStr (u ''text'')), (u ''text'', JBool False)])) = None
   \<and> cache_and_replace L example_proxy
        (JDict [(u ''type'', JStr (u ''text'')), (u ''text'', JBool False)]) path
       = (example_proxy, Inl TypeError)
   \<and> cache_and_replace L
        (fst (cache_and_replace L example_proxy
                (JDict [(u ''type'', JStr (u ''text'')), (u ''text'', JBool False)]) path))
        (JDict [(u ''type'', JStr (u ''text'')), (u ''text'', JBool False)]) path'
       = (example_proxy, Inl TypeError)"
proof -
  let ?v = "JDict [(u ''type'', JStr (u ''text'')), (u ''text'', JBool False)]"
  have on: "cache_json example_proxy" and new: "json_cache example_proxy k = None" for k
    by (simp_all add: example_proxy_def)
  have p: "create_preview L ?v 60 = Inl TypeError"
    by (simp add: create_preview.simps)
  have c: "cache_and_replace L example_proxy ?v q = (example_proxy, Inl TypeError)" for q
    using on new p by (simp add: cache_and_replace.simps compute_hash_total)
  show ?thesis
    using on new c by simp
qed

text \<open>
  An instance of C6 as amended: in \<open>{"x": ["a"], "model": ["a"], "y": ["a"]}\<close> the value
  of \<open>"model"\<close> equals the value seen under \<open>"x"\<close> just before and is copied all the
  same, while the equal value of \<open>"y"\<close> becomes a marker; the loop over \<open>"x"\<close> and
  \<open>"y"\<close> alone ends with the same proxy.
\<close>

theorem exempt_keys_bypass_witness:
  "cache_json example_proxy
   \<and> json_cache example_proxy
        (fingerprint example_lib
           (JDict [(u ''x'', JList [JStr (u ''a'')]), (u ''model'', JList [JStr (u ''a'')]),
                   (u ''y'', JList [JStr (u ''a'')])])) = None
   \<and> cache_and_replace example_lib example_proxy
        (JDict [(u ''x'', JList [JStr (u ''a'')]), (u ''model'', JList [JStr (u ''a'')]),
                (u ''y'', JList [JStr (u ''a'')])]) []
       = (remember
            (remember example_proxy
               (fingerprint example_lib
                  (JDict [(u ''x'', JList [JStr (u ''a'')]), (u ''model'', JList [JStr (u ''a'')]),
                          (u ''y'', JList [JStr (u ''a'')])]))
               (u ''dict with keys: x, model, y''))
            (fingerprint example_lib (JList [JStr (u ''a'')])) (u ''array with 1 items''),
          Inr (JDict [(u ''x'', JList [JStr (u ''a'')]), (u ''model'', JList [JStr (u ''a'')]),
                      (u ''y'', cached_marker (u ''array with 1 items''))]))
   \<and> cache_items example_lib
        (remember example_proxy
           (fingerprint example_lib
              (JDict [(u ''x'', JList [JStr (u ''a'')]), (u ''model'', JList [JStr (u ''a'')]),
                      (u ''y'', JList [JStr (u ''a'')])]))
           (u ''dict with keys: x, model, y''))
        [(u ''x'', JList [JStr (u ''a'')]), (u ''y'', JList [JStr (u ''a'')])] []
       = (remember
            (remember example_proxy
               (fingerprint example_lib
                  (JDict [(u ''x'', JList [JStr (u ''a'')]), (u ''model'', JList [JStr (u ''a'')]),
                          (u ''y'', JList [JStr (u ''a'')])]))
               (u ''dict with keys: x, model, y''))
            (fingerprint example_lib (JList [JStr (u ''a'')])) (u ''array with 1 items''),
          Inr [(u ''x'', JList [JStr (u ''a'')]), (u ''y'', cached_marker (u ''array with 1 items''))])"
proof -
  let ?kvs = "[(u ''x'', JList [JStr (u ''a'')]), (u ''model'', JList [JStr (u ''a'')]),
               (u ''y'', JList [JStr (u ''a'')])]"
  let ?kvs' = "[(u ''x'', JList [JStr (u ''a'')]), (u ''model'', JList [JStr (u ''a'')]),
               (u ''y'', cached_marker (u ''array with 1 items''))]"
  let ?s0 = "remember example_proxy (fingerprint example_lib (JDict ?kvs)) (u ''dict with keys: x, model, y'')"
  let ?s1 = "remember ?s0 (fingerprint example_lib (JList [JStr (u ''a'')])) (u ''array with 1 items'')"
  have on: "cache_json example_proxy"
    by (simp add: example_proxy_def)
  have new: "json_cache example_proxy (fingerprint example_lib (JDict ?kvs)) = None"
    by (simp add: example_proxy_def)
  have first: "cache_and_replace example_lib example_proxy (JDict ?kvs) [] = (?s1, Inr (JDict ?kvs'))"
    by (simp add: collapse_eval)
  have prev: "create_preview example_lib (JDict ?kvs) 60 = Inr (u ''dict with keys: x, model, y'')"
    by (simp add: create_preview.simps)
  have f: "filter (\<lambda>kv. fst kv \<notin> set exempt_keys) ?kvs
           = [(u ''x'', JList [JStr (u ''a'')]), (u ''y'', JList [JStr (u ''a'')])]"
    "filter (\<lambda>kv. fst kv \<notin> set exempt_keys) ?kvs'
           = [(u ''x'', JList [JStr (u ''a'')]), (u ''y'', cached_marker (u ''array with 1 items''))]"
    by (simp_all add: exempt_keys_def)
  from exempt_keys_bypass [OF on new first] prev
  have "cache_items example_lib ?s0 (filter (\<lambda>kv. fst kv \<notin> set exempt_keys) ?kvs) []
        = (?s1, Inr (filter (\<lambda>kv. fst kv \<notin> set exempt_keys) ?kvs'))"
    by auto
  then have "cache_items example_lib ?s0
        [(u ''x'', JList [JStr (u ''a'')]), (u ''y'', JList [JStr (u ''a'')])] []
       = (?s1, Inr [(u ''x'', JList [JStr (u ''a'')]), (u ''y'', cached_marker (u ''array with 1 items''))])"
    by (simp only: f)
  with on new first show ?thesis
    by (simp only: simp_thms)
qed

text \<open>
  C6 as stated does not hold for every body: a body that was seen before is replaced as
  a whole by a marker, and the value of its key \<open>"model"\<close> is not copied anywhere.
  Here the body \<open>{"model": ["a"], "x": 1}\<close> is collapsed twice.
\<close>

theorem body_seen_before_counterexample:
  "cache_and_replace example_lib
     (fst (cache_and_replace example_lib example_proxy
             (JDict [(u ''model'', JList [JStr (u ''a'')]), (u ''x'', JInt 1)]) []))
     (JDict [(u ''model'', JList [JStr (u ''a'')]), (u ''x'', JInt 1)]) []
   = (remember example_proxy
        (fingerprint example_lib (JDict [(u ''model'', JList [JStr (u ''a'')]), (u ''x'', JInt 1)]))
        (u ''dict with keys: model, x''),
      Inr (JStr (u ''... (cached: dict with keys: model, x)'')))"
  by (simp add: collapse_eval)

text \<open>
  C5 says that a document without equal composite parts comes back from the collapser
  with the same keys and leaves.  It does not for the document
  \<open>{"content": [{"type": "text", "text": null}]}\<close>, which has no two equal composite
  parts: collapsing it from the empty cache ends with \<open>TypeError\<close>, raised by
  \<open>create_preview\<close> on the inner mapping, after the document and its list have
  been entered in the cache.
\<close>

theorem null_text_block_raises:
  "cache_and_replace example_lib example_proxy
     (JDict [(u ''content'', JList [JDict [(u ''type'', JStr (u ''text'')), (u ''text'', JNull)]])]) []
   = (remember
        (remember example_proxy
           (fingerprint example_lib
              (JDict [(u ''content'',
                       JList [JDict [(u ''type'', JStr (u ''text'')), (u ''text'', JNull)]])]))
           (u ''dict with keys: content''))
        (fingerprint example_lib (JList [JDict [(u ''type'', JStr (u ''text'')), (u ''text'', JNull)]]))
        (u ''array with 1 items''),
      Inl TypeError)"
  by (simp add: collapse_eval)









end
